theory Spec2Isabelle
  imports Main "HOL-Library.Multiset" "HOL-Library.Char_ord" "HOL-Library.List_Lexorder"
begin

section \<open>Strings and integers of the host language\<close>

text \<open>
  The evaluator is written in Go. Its strings are byte strings, in the model lists of
  \<^typ>\<open>char\<close>; text in them is encoded in UTF-8. Go's \<open>int\<close> is the 64-bit
  two's-complement integer: values are modelled as \<^typ>\<open>int\<close>, and every operation that
  can leave the range is wrapped explicitly by \<open>wrap64\<close>.
\<close>

definition upperChars :: string where
  "upperChars = ''ABCDEFGHIJKLMNOPQRSTUVWXYZ''"

definition lowerChars :: string where
  "lowerChars = ''abcdefghijklmnopqrstuvwxyz''"

definition digitChars :: string where
  "digitChars = ''0123456789''"

definition toLowerChar :: "char \<Rightarrow> char" where
  "toLowerChar c = (case map_of (zip upperChars lowerChars) c of Some l \<Rightarrow> l | None \<Rightarrow> c)"

definition toUpperChar :: "char \<Rightarrow> char" where
  "toUpperChar c = (case map_of (zip lowerChars upperChars) c of Some u \<Rightarrow> u | None \<Rightarrow> c)"

definition isASCII :: "char \<Rightarrow> bool" where
  "isASCII c = (of_char c < (128 :: nat))"

text \<open>
  \<open>strings.ToLower\<close> and \<open>strings.ToUpper\<close>. On a string of ASCII bytes only, the
  library maps the 26 letters. On any other string it maps every code point through the
  Unicode case tables (\<open>strings.Map\<close> with \<open>unicode.ToLower\<close> or \<open>unicode.ToUpper\<close>); the
  tables belong to the library and not to the repository, and \<open>mapUnicodeLower\<close> and
  \<open>mapUnicodeUpper\<close> stand for these two functions: each is some function of the string,
  of which nothing more is used.
\<close>

definition mapUnicodeLower :: "string \<Rightarrow> string" where
  "mapUnicodeLower = (SOME f. True)"

definition mapUnicodeUpper :: "string \<Rightarrow> string" where
  "mapUnicodeUpper = (SOME f. True)"

definition ToLower :: "string \<Rightarrow> string" where
  "ToLower s = (if list_all isASCII s then map toLowerChar s else mapUnicodeLower s)"

definition ToUpper :: "string \<Rightarrow> string" where
  "ToUpper s = (if list_all isASCII s then map toUpperChar s else mapUnicodeUpper s)"

definition isDigit :: "char \<Rightarrow> bool" where
  "isDigit ch = (ch \<in> set digitChars)"

definition isLetter :: "char \<Rightarrow> bool" where
  "isLetter ch = (ch \<in> set lowerChars \<or> ch \<in> set upperChars)"

definition isAlnum :: "char \<Rightarrow> bool" where
  "isAlnum ch = (isLetter ch \<or> isDigit ch)"

text \<open>
  \<open>strings.TrimSpace\<close> removes the white space of Unicode at both ends: the six ASCII
  characters and the code points U+0085, U+00A0, U+1680, U+2000 to U+200A, U+2028,
  U+2029, U+202F, U+205F and U+3000, here in their UTF-8 encodings. The library decodes
  one code point at the start, or the last one at the end, and stops at the first that
  is no white space; a byte sequence that is no valid encoding counts as none. The
  encoding of a code point is unique, and the bytes after its first one are continuation
  bytes, so the code point at either end is white space exactly when the string starts,
  or ends, with one of the listed encodings.
\<close>

definition spaceRunes :: "string list" where
  "spaceRunes =
     [[CHR 0x09], [CHR 0x0A], [CHR 0x0B], [CHR 0x0C], [CHR 0x0D], [CHR 0x20],
      [CHR 0xC2, CHR 0x85], [CHR 0xC2, CHR 0xA0], [CHR 0xE1, CHR 0x9A, CHR 0x80],
      [CHR 0xE2, CHR 0x80, CHR 0x80], [CHR 0xE2, CHR 0x80, CHR 0x81],
      [CHR 0xE2, CHR 0x80, CHR 0x82], [CHR 0xE2, CHR 0x80, CHR 0x83],
      [CHR 0xE2, CHR 0x80, CHR 0x84], [CHR 0xE2, CHR 0x80, CHR 0x85],
      [CHR 0xE2, CHR 0x80, CHR 0x86], [CHR 0xE2, CHR 0x80, CHR 0x87],
      [CHR 0xE2, CHR 0x80, CHR 0x88], [CHR 0xE2, CHR 0x80, CHR 0x89],
      [CHR 0xE2, CHR 0x80, CHR 0x8A], [CHR 0xE2, CHR 0x80, CHR 0xA8],
      [CHR 0xE2, CHR 0x80, CHR 0xA9], [CHR 0xE2, CHR 0x80, CHR 0xAF],
      [CHR 0xE2, CHR 0x81, CHR 0x9F], [CHR 0xE3, CHR 0x80, CHR 0x80]]"

definition spacePrefix :: "string \<Rightarrow> string option" where
  "spacePrefix s = find (\<lambda>w. take (length w) s = w) spaceRunes"

definition spaceSuffix :: "string \<Rightarrow> string option" where
  "spaceSuffix s = find (\<lambda>w. length w \<le> length s \<and> drop (length s - length w) s = w) spaceRunes"

lemma spaceRunes_length: "w \<in> set spaceRunes \<Longrightarrow> 0 < length w"
  by (auto simp add: spaceRunes_def)

lemma spacePrefix_length: "spacePrefix s = Some w \<Longrightarrow> 0 < length w \<and> length w \<le> length s"
proof -
  assume "spacePrefix s = Some w"
  then have m: "w \<in> set spaceRunes" and t: "take (length w) s = w"
    by (auto simp add: spacePrefix_def find_Some_iff)
  from t have "length (take (length w) s) = length w" by simp
  then have "length w \<le> length s" by simp
  with spaceRunes_length [OF m] show ?thesis by simp
qed

lemma spaceSuffix_length: "spaceSuffix s = Some w \<Longrightarrow> 0 < length w \<and> length w \<le> length s"
proof -
  assume "spaceSuffix s = Some w"
  then have m: "w \<in> set spaceRunes" and t: "length w \<le> length s"
    by (auto simp add: spaceSuffix_def find_Some_iff)
  with spaceRunes_length [OF m] show ?thesis by simp
qed

function trimLeft :: "string \<Rightarrow> string" where
  "trimLeft s = (case spacePrefix s of None \<Rightarrow> s | Some w \<Rightarrow> trimLeft (drop (length w) s))"
  by pat_completeness auto
termination
proof (relation "measure length", goal_cases)
  case 1
  show ?case by simp
next
  case (2 s w)
  from spacePrefix_length [OF 2] have "length s - length w < length s" by linarith
  then show ?case by simp
qed

function trimRight :: "string \<Rightarrow> string" where
  "trimRight s =
     (case spaceSuffix s of None \<Rightarrow> s | Some w \<Rightarrow> trimRight (take (length s - length w) s))"
  by pat_completeness auto
termination
proof (relation "measure length", goal_cases)
  case 1
  show ?case by simp
next
  case (2 s w)
  from spaceSuffix_length [OF 2] have "length s - length w < length s" by linarith
  then show ?case by simp
qed

declare trimLeft.simps [simp del]
declare trimRight.simps [simp del]

definition TrimSpace :: "string \<Rightarrow> string" where
  "TrimSpace s = trimRight (trimLeft s)"

definition dquote :: char where
  "dquote = CHR 0x22"

definition backslash :: char where
  "backslash = CHR 0x5C"

definition minInt :: int where
  "minInt = - (2 ^ 63)"

definition maxInt :: int where
  "maxInt = 2 ^ 63 - 1"

definition wrap64 :: "int \<Rightarrow> int" where
  "wrap64 x = (x + 2 ^ 63) mod 2 ^ 64 - 2 ^ 63"

definition digitNums :: "int list" where
  "digitNums = [0, 1, 2, 3, 4, 5, 6, 7, 8, 9]"

definition digitVal :: "char \<Rightarrow> int" where
  "digitVal ch = (case map_of (zip digitChars digitNums) ch of Some d \<Rightarrow> d | None \<Rightarrow> 0)"

definition digitOf :: "int \<Rightarrow> char" where
  "digitOf d = (case map_of (zip digitNums digitChars) d of Some ch \<Rightarrow> ch | None \<Rightarrow> CHR ''0'')"

definition parseDigits :: "string \<Rightarrow> int" where
  "parseDigits ds = foldl (\<lambda>acc ch. 10 * acc + digitVal ch) 0 ds"

text \<open>
  \<open>strconv.Atoi\<close>: an optional sign, then at least one decimal digit and nothing else; a
  value outside the 64-bit range is an error.
\<close>

definition Atoi :: "string \<Rightarrow> int option" where
  "Atoi s =
     (let neg = (s \<noteq> [] \<and> hd s = CHR ''-'');
          ds = (if s \<noteq> [] \<and> (hd s = CHR ''-'' \<or> hd s = CHR ''+'') then tl s else s)
      in if ds = [] \<or> \<not> list_all isDigit ds then None
         else let v = (if neg then - parseDigits ds else parseDigits ds)
              in if v < minInt \<or> maxInt < v then None else Some v)"

text \<open>\<open>strconv.Itoa\<close>: the decimal digits, after a minus sign for a negative number.\<close>

function natDigits :: "int \<Rightarrow> string" where
  "natDigits n =
     (if n < 10 then [digitOf n] else natDigits (n div 10) @ [digitOf (n mod 10)])"
  by pat_completeness auto
termination
  by (relation "measure nat") auto

declare natDigits.simps [simp del]

definition Itoa :: "int \<Rightarrow> string" where
  "Itoa i = (if i < 0 then CHR ''-'' # natDigits (- i) else natDigits i)"

section \<open>Lexer\<close>

text \<open>
  \<open>readString\<close> is the loop of \<open>tokenize\<close> over a quoted literal, started after the
  opening quote: a backslash that is not the last byte copies the byte after it.
\<close>

fun readString :: "string \<Rightarrow> string \<Rightarrow> (string \<times> string) option" where
  "readString [] sb = None"
| "readString [c] sb = (if c = dquote then Some (sb, []) else None)"
| "readString (c # d # cs) sb =
     (if c = backslash then readString cs (sb @ [d])
      else if c = dquote then Some (sb, d # cs)
      else readString (d # cs) (sb @ [c]))"

text \<open>
  \<open>skipString\<close> is the inner loop that steps over a quoted literal inside a bracketed
  tuple; it stops on the closing quote (left at the head of the rest) or at the end.
\<close>

fun skipString :: "string \<Rightarrow> string \<Rightarrow> string \<times> string" where
  "skipString [] acc = (acc, [])"
| "skipString [c] acc = (if c = dquote then (acc, [c]) else (acc @ [c], []))"
| "skipString (c # d # cs) acc =
     (if c = backslash then skipString cs (acc @ [c, d])
      else if c = dquote then (acc, c # d # cs)
      else skipString (d # cs) (acc @ [c]))"

lemma skipString_length: "length (snd (skipString cs acc)) \<le> length cs"
  by (induction cs acc rule: skipString.induct) auto

function readTuple :: "string \<Rightarrow> int \<Rightarrow> string \<Rightarrow> (string \<times> string) option" where
  "readTuple [] depth acc = None"
| "readTuple (c # cs) depth acc =
     (if c = CHR ''['' then readTuple cs (depth + 1) (acc @ [c])
      else if c = CHR '']'' then
        (if depth - 1 = 0 then Some (acc @ [c], cs) else readTuple cs (depth - 1) (acc @ [c]))
      else if c = dquote then
        (case snd (skipString cs (acc @ [c])) of
           [] \<Rightarrow> None
         | q # rest \<Rightarrow> readTuple rest depth (fst (skipString cs (acc @ [c])) @ [q]))
      else readTuple cs depth (acc @ [c]))"
  by pat_completeness auto
termination
proof (relation "measure (\<lambda>(cs, depth, acc). length cs)", goal_cases)
  case 1
  show ?case by simp
next
  case (2 c cs depth acc)
  show ?case by simp
next
  case (3 c cs depth acc)
  show ?case by simp
next
  case (4 c cs depth acc q rest)
  have "length (snd (skipString cs (acc @ [c]))) \<le> length cs"
    by (rule skipString_length)
  with 4 show ?case by simp
next
  case (5 c cs depth acc)
  show ?case by simp
qed

lemma readString_length: "readString cs sb = Some (t, rest) \<Longrightarrow> length rest < length cs"
  by (induction cs sb rule: readString.induct) (auto split: if_splits)

lemma readTuple_length: "readTuple cs depth acc = Some (t, rest) \<Longrightarrow> length rest < length cs"
proof (induction cs depth acc rule: readTuple.induct)
  case (1 depth acc)
  then show ?case by simp
next
  case (2 c cs depth acc)
  have sk: "length (snd (skipString cs (acc @ [c]))) \<le> length cs"
    by (rule skipString_length)
  from 2 sk show ?case
    by (auto split: if_splits list.splits)
qed

definition punctChars :: string where
  "punctChars = ''+-*/^(),?:=<>&|%''"

function tokLoop :: "string \<Rightarrow> string list \<Rightarrow> string list option" where
  "tokLoop [] toks = Some toks"
| "tokLoop (c # cs) toks =
     (if c = CHR '' '' \<or> c = CHR 0x09 \<or> c = CHR 0x0A then tokLoop cs toks
      else if c = dquote then
        (case readString cs [] of
           None \<Rightarrow> None
         | Some (content, rest) \<Rightarrow> tokLoop rest (toks @ [dquote # content @ [dquote]]))
      else if isDigit c then
        tokLoop (dropWhile isDigit cs) (toks @ [c # takeWhile isDigit cs])
      else if c = CHR ''['' then
        (case readTuple (c # cs) 0 [] of
           None \<Rightarrow> None
         | Some (tok, rest) \<Rightarrow> tokLoop rest (toks @ [tok]))
      else if c \<in> set punctChars then tokLoop cs (toks @ [[c]])
      else if c = CHR ''$'' then
        tokLoop (dropWhile isAlnum cs) (toks @ [c # takeWhile isAlnum cs])
      else if isLetter c then
        tokLoop (dropWhile isLetter cs) (toks @ [c # takeWhile isLetter cs])
      else None)"
  by pat_completeness auto
termination
proof (relation "measure (\<lambda>(cs, toks). length cs)", goal_cases)
  case 1
  show ?case by simp
next
  case (2 c cs toks)
  show ?case by simp
next
  case (3 c cs toks x2 content rest)
  then show ?case using readString_length [of cs "[]" content rest] by simp
next
  case (4 c cs toks)
  show ?case by (simp add: length_dropWhile_le less_Suc_eq_le)
next
  case (5 c cs toks x2 tok rest)
  then show ?case using readTuple_length [of "c # cs" 0 "[]" tok rest] by simp
next
  case (6 c cs toks)
  show ?case by simp
next
  case (7 c cs toks)
  show ?case by (simp add: length_dropWhile_le less_Suc_eq_le)
next
  case (8 c cs toks)
  show ?case by (simp add: length_dropWhile_le less_Suc_eq_le)
qed

definition tokenize :: "string \<Rightarrow> string list option" where
  "tokenize s = tokLoop (TrimSpace s) []"

section \<open>Operator table\<close>

definition precTable :: "(string \<times> nat) list" where
  "precTable =
     [(''|'', 2), (''&'', 2), (''<'', 1), (''>'', 1), (''+'', 3), (''-'', 3), (''*'', 4),
      (''/'', 4), (''^'', 5), (''d'', 7), (''df'', 7), (''k'', 6), (''q'', 6), (''a'', 7),
      (''c'', 7), (''a_m'', 7), (''c_m'', 7), (''b'', 7), (''p'', 7), (''f'', 7), (''kh'', 6),
      (''kl'', 6), (''dh'', 6), (''dl'', 6), (''min'', 6), (''max'', 6), (''sp'', 6),
      (''tp'', 6), (''lp'', 6), (''?'', 8), (''='', 9)]"

definition prec :: "string \<Rightarrow> nat" where
  "prec op = (case map_of precTable op of Some n \<Rightarrow> n | None \<Rightarrow> 0)"

definition isLeftAssoc :: "string \<Rightarrow> bool" where
  "isLeftAssoc op = (if op = ''^'' \<or> op = ''='' then False else True)"

definition isOperator :: "string \<Rightarrow> bool" where
  "isOperator tok = (case map_of precTable tok of Some n \<Rightarrow> True | None \<Rightarrow> False)"

section \<open>Token preprocessor\<close>

text \<open>
  \<open>preProcessTokens\<close> makes three passes. Each pass is a loop over an index in the
  source; here it is a recursion over the tokens still to be read. The first pass carries
  the output built so far, because the test for a missing left operand reads its last
  element.
\<close>

definition implicitOps :: "string list" where
  "implicitOps = [''d'', ''b'', ''p'', ''f'', ''df'', ''a'', ''c'']"

definition needLeft :: "string list \<Rightarrow> bool" where
  "needLeft out =
     (if out = [] then True
      else isOperator (ToLower (last out)) \<or> last out = ''('' \<or> last out = ''?''
           \<or> last out = '':'')"

definition needRight :: "string list \<Rightarrow> bool" where
  "needRight rest =
     (case rest of
        [] \<Rightarrow> True
      | next # _ \<Rightarrow> isOperator (ToLower next) \<or> next = '')'' \<or> next = '':'')"

definition leftDefault :: "string \<Rightarrow> string list" where
  "leftDefault low =
     (if low = ''d'' then [''1'']
      else if low = ''b'' \<or> low = ''p'' \<or> low = ''a'' \<or> low = ''c'' then [''1'']
      else if low = ''f'' \<or> low = ''df'' then [''4'']
      else [])"

definition rightDefault :: "string \<Rightarrow> string list" where
  "rightDefault low =
     (if low = ''b'' \<or> low = ''p'' then [''1'']
      else if low = ''f'' \<or> low = ''df'' then [''3'']
      else [])"

fun insertDefaults :: "string list \<Rightarrow> string list \<Rightarrow> string list" where
  "insertDefaults [] out = out"
| "insertDefaults (tok # rest) out =
     (if ToLower tok \<in> set implicitOps then
        insertDefaults rest
          ((if needLeft out then out @ leftDefault (ToLower tok) else out) @ [tok]
           @ (if needRight rest then rightDefault (ToLower tok) else []))
      else insertDefaults rest (out @ [tok]))"

fun rewriteFaces :: "string list \<Rightarrow> string list" where
  "rewriteFaces (x0 # x1 # x2 # x3 # x4 # rest) =
     (if (ToLower x1 = ''a'' \<or> ToLower x1 = ''c'') \<and> ToLower x3 = ''m''
         \<and> Atoi x2 \<noteq> None \<and> Atoi x4 \<noteq> None
      then [x0, x2, x4, ToLower x1 @ ''_m''] @ rewriteFaces rest
      else x0 # rewriteFaces (x1 # x2 # x3 # x4 # rest))"
| "rewriteFaces (x0 # rest) = x0 # rewriteFaces rest"
| "rewriteFaces [] = []"

text \<open>The flag of \<open>defaultFaces\<close> is the test \<open>j == 0\<close> of the third pass.\<close>

fun defaultFaces :: "bool \<Rightarrow> int \<Rightarrow> string list \<Rightarrow> string list" where
  "defaultFaces first defaultD [] = []"
| "defaultFaces first defaultD (tok # rest) =
     (if ToLower tok = ''d'' then
        (if rest \<noteq> [] \<and> hd rest = ''%'' then
           (if first then [''1''] else []) @ [''d'', Itoa 100]
           @ defaultFaces False defaultD (tl rest)
         else if rest = [] \<or> isOperator (ToLower (hd rest)) \<or> hd rest = '')''
                 \<or> hd rest = '':'' then
           (if first then [''1''] else []) @ [''d'', Itoa defaultD]
           @ defaultFaces False defaultD rest
         else tok # defaultFaces False defaultD rest)
      else tok # defaultFaces False defaultD rest)"

definition preProcessTokens :: "string list \<Rightarrow> int \<Rightarrow> string list" where
  "preProcessTokens toks defaultD =
     defaultFaces True defaultD (rewriteFaces (insertDefaults toks []))"

section \<open>Postfix converter\<close>

text \<open>
  The operator stack is a list whose head is the top. The branch of \<open>toRPN\<close> for
  \<open>?\<close> comes after the branch for registered operators; \<open>?\<close> is registered, so it is
  pushed by the operator branch, as in the source.
\<close>

fun popOps :: "string \<Rightarrow> string list \<Rightarrow> string list \<Rightarrow> string list \<times> string list" where
  "popOps op [] out = ([], out)"
| "popOps op (tp # stack) out =
     (if isOperator tp
         \<and> ((isLeftAssoc op \<and> prec op \<le> prec tp) \<or> (\<not> isLeftAssoc op \<and> prec op < prec tp))
      then popOps op stack (out @ [tp])
      else (tp # stack, out))"

fun popToQuestion :: "string list \<Rightarrow> string list \<Rightarrow> (string list \<times> string list) option" where
  "popToQuestion [] out = None"
| "popToQuestion (tp # stack) out =
     (if tp = ''?'' then Some ('':'' # stack, out) else popToQuestion stack (out @ [tp]))"

fun popToParen :: "string list \<Rightarrow> string list \<Rightarrow> (string list \<times> string list) option" where
  "popToParen [] out = None"
| "popToParen (tp # stack) out =
     (if tp = ''('' then Some (stack, out) else popToParen stack (out @ [tp]))"

fun flushStack :: "string list \<Rightarrow> string list \<Rightarrow> string list option" where
  "flushStack [] out = Some out"
| "flushStack (tp # stack) out =
     (if tp = ''('' \<or> tp = '')'' then None else flushStack stack (out @ [tp]))"

definition isOperand :: "string \<Rightarrow> bool" where
  "isOperand tok =
     (Atoi tok \<noteq> None
      \<or> (tok \<noteq> [] \<and> hd tok = CHR ''$'')
      \<or> (tok \<noteq> [] \<and> hd tok = CHR ''['')
      \<or> (\<not> isOperator (ToLower tok) \<and> tok \<noteq> [] \<and> isLetter (hd tok))
      \<or> (2 \<le> length tok \<and> hd tok = dquote \<and> last tok = dquote))"

fun rpnLoop :: "string list \<Rightarrow> string list \<Rightarrow> string list \<Rightarrow> string list option" where
  "rpnLoop [] out stack = flushStack stack out"
| "rpnLoop (tok # rest) out stack =
     (if isOperand tok then rpnLoop rest (out @ [tok]) stack
      else if isOperator (ToLower tok) then
        (let op = (if ToLower tok = ''df'' then ''f'' else ToLower tok)
         in rpnLoop rest (snd (popOps op stack out)) (op # fst (popOps op stack out)))
      else if tok = ''?'' then rpnLoop rest out (''?'' # stack)
      else if tok = '':'' then
        (case popToQuestion stack out of
           None \<Rightarrow> None
         | Some (stack', out') \<Rightarrow> rpnLoop rest out' stack')
      else if tok = ''('' then rpnLoop rest out (tok # stack)
      else if tok = '')'' then
        (case popToParen stack out of
           None \<Rightarrow> None
         | Some (stack', out') \<Rightarrow> rpnLoop rest out' stack')
      else None)"

definition toRPN :: "string list \<Rightarrow> string list option" where
  "toRPN tokens = rpnLoop tokens [] []"

section \<open>Values, random source and evaluation context\<close>

datatype ErrorType =
    ErrUnknownGenerate
  | ErrInputRawInvalid
  | ErrNodeStackEmpty
  | ErrNodeLeftValInvalid
  | ErrNodeRightValInvalid

text \<open>
  \<open>Meta\<close> keeps the difference between a nil slice and an empty one, which
  \<open>resolveMetaValues\<close> tests. \<open>MetaStr\<close> is only ever tested together with its length,
  so nil and empty coincide there.
\<close>

record Value =
  V :: int
  Meta :: "int list option"
  MetaEnable :: bool
  TempIndex :: int
  IsTemp :: bool
  MetaStr :: "string list"

definition zeroValue :: Value where
  "zeroValue = \<lparr>V = 0, Meta = None, MetaEnable = False, TempIndex = 0, IsTemp = False, MetaStr = []\<rparr>"

definition scalar :: "int \<Rightarrow> Value" where
  "scalar n = zeroValue\<lparr>V := n\<rparr>"

definition metaList :: "Value \<Rightarrow> int list" where
  "metaList v = (case Meta v of None \<Rightarrow> [] | Some xs \<Rightarrow> xs)"

text \<open>
  An evaluation ends with an error, with a result, or not at all. \<open>Diverge\<close> is the
  outcome of an evaluation that returns nothing: the program stops in a run-time panic,
  or, in the model only, a nested evaluation is cut off by the bound on nesting depth,
  see \<open>RollN\<close> below.
\<close>

datatype 'a outcome = Diverge | Fail ErrorType | Done 'a

text \<open>
  The random source comes from the library \<open>math/rand\<close>. It is modelled by the sequence of
  numbers that the successive calls of \<open>Intn\<close> draw from, and by the count of the calls
  made so far; \<open>Intn n\<close> reduces the next number modulo \<open>n\<close>. All calls in the evaluator
  have \<open>n > 0\<close>, where the source does not panic.
\<close>

record rand =
  draws :: "nat \<Rightarrow> int"
  used :: nat

definition Intn :: "int \<Rightarrow> rand \<Rightarrow> int \<times> rand" where
  "Intn n g = (draws g (used g) mod n, g\<lparr>used := Suc (used g)\<rparr>)"

text \<open>
  The fields of \<open>RD\<close> that evaluation reads and writes. A nil \<open>ValueTable\<close> is
  \<open>None\<close>. \<open>temp\<close> is never nil for a value built by \<open>New\<close>.
\<close>

record RD =
  ValueTable :: "(string \<rightharpoonup> int) option"
  rng :: rand
  temp :: "int \<rightharpoonup> int"
  DefaultFaces :: int

definition sum64 :: "int list \<Rightarrow> int" where
  "sum64 xs = foldl (\<lambda>s v. wrap64 (s + v)) 0 xs"

text \<open>
  \<open>sort.Ints\<close> is \<^const>\<open>sort\<close>; \<open>sort.Slice\<close> with the comparison \<open>arr[i] > arr[j]\<close>
  yields the same elements in descending order, which for integers is one list only,
  the reverse of the ascending one. The callers pass \<open>n > 0\<close>.
\<close>

definition selectFromMeta :: "int list \<Rightarrow> int \<Rightarrow> string \<Rightarrow> int list \<times> int" where
  "selectFromMeta src n mode =
     (if src = [] then ([], 0)
      else if mode = ''kh'' then
        (take (nat n) (rev (sort src)), sum64 (take (nat n) (rev (sort src))))
      else if mode = ''kl'' then
        (take (nat n) (sort src), sum64 (take (nat n) (sort src)))
      else if mode = ''dh'' then
        (if n \<ge> int (length src) then ([], 0)
         else (drop (nat n) (rev (sort src)), sum64 (drop (nat n) (rev (sort src)))))
      else if mode = ''dl'' then
        (if n \<ge> int (length src) then ([], 0)
         else (drop (nat n) (sort src), sum64 (drop (nat n) (sort src))))
      else ([], 0))"

section \<open>Resolution of meta values\<close>

text \<open>
  A tuple element that is not an integer is evaluated by a nested evaluator
  (\<open>New(v, subVT)\<close>, sharing the random source, then \<open>Roll\<close>). The functions of this and
  the next sections take that nested evaluation as the parameter \<open>sub\<close>: it maps the
  element, the table and the random source to the value of the nested result, the nested
  evaluator's table and the random source afterwards.

  \<open>getFromMetaTuple\<close> returns the empty slice when an element fails, and its callers
  then return an error; the model ends with \<open>Fail\<close> there, and does not describe the
  state of an evaluator after an error. The parameter \<open>flagLast\<close> is false at every call
  and is left out.
\<close>

datatype MetaElem = MInt int | MStr string

type_synonym subroll =
  "string \<Rightarrow> (string \<rightharpoonup> int) option \<Rightarrow> rand \<Rightarrow> (int \<times> (string \<rightharpoonup> int) option \<times> rand) outcome"

fun getFromMetaTuple ::
  "subroll \<Rightarrow> MetaElem list \<Rightarrow> bool \<Rightarrow> RD \<Rightarrow> int list \<Rightarrow> (int list \<times> RD) outcome" where
  "getFromMetaTuple sub [] flagUpdate r res = Done (res, r)"
| "getFromMetaTuple sub (MInt v # els) flagUpdate r res =
     getFromMetaTuple sub els flagUpdate r (res @ [v])"
| "getFromMetaTuple sub (MStr v # els) flagUpdate r res =
     (case sub v (ValueTable r) (rng r) of
        Diverge \<Rightarrow> Diverge
      | Fail e \<Rightarrow> Fail e
      | Done (val, subVT, g) \<Rightarrow>
          getFromMetaTuple sub els flagUpdate
            (r\<lparr>rng := g,
               ValueTable :=
                 (if flagUpdate then (case subVT of None \<Rightarrow> ValueTable r | Some m \<Rightarrow> Some m)
                  else ValueTable r)\<rparr>)
            (res @ [val]))"

text \<open>
  With \<open>flagUpdate\<close> the nested evaluator works on the receiver's own map; when the
  receiver has none and the nested evaluator made one, its entries are copied into a new
  map. In both cases the receiver's table afterwards has the contents of the nested one.

  \<open>resolveMetaValues\<close> returns \<open>ok = false\<close> where the model has
  \<open>Fail ErrNodeLeftValInvalid\<close>: that is what each of its callers returns at once.
\<close>

definition resolveMetaValues :: "subroll \<Rightarrow> Value \<Rightarrow> RD \<Rightarrow> (int list \<times> RD) outcome" where
  "resolveMetaValues sub v r =
     (if \<not> MetaEnable v then Done ([V v], r)
      else case Meta v of
        Some xs \<Rightarrow> Done (xs, r)
      | None \<Rightarrow>
          (if MetaStr v \<noteq> [] then
             (case getFromMetaTuple sub (map MStr (MetaStr v)) True r [] of
                Diverge \<Rightarrow> Diverge
              | Fail e \<Rightarrow> Fail ErrNodeLeftValInvalid
              | Done (res, r') \<Rightarrow>
                  if length res = length (MetaStr v) then Done (res, r')
                  else Fail ErrNodeLeftValInvalid)
           else Fail ErrNodeLeftValInvalid))"

section \<open>Postfix evaluator\<close>

unbundle bit_operations_syntax

text \<open>
  The operand stack is a list whose head is the top, so \<open>b # a # st\<close> is a stack from
  which the source pops \<open>b\<close> first and \<open>a\<close> second. Every operator pops all its operands
  before it checks them.
\<close>

text \<open>The loop \<open>for i := 0; i < count; i++\<close> around \<open>r.rng.Intn(n) + off\<close>.\<close>

fun rollMany :: "nat \<Rightarrow> int \<Rightarrow> int \<Rightarrow> rand \<Rightarrow> int list \<times> rand" where
  "rollMany 0 n off g = ([], g)"
| "rollMany (Suc k) n off g =
     ((fst (Intn n g) + off) # fst (rollMany k n off (snd (Intn n g))),
      snd (rollMany k n off (snd (Intn n g))))"

text \<open>Go's \<open>/\<close> on \<open>int\<close>: the quotient truncated toward zero, in 64 bits.\<close>

definition goDiv :: "int \<Rightarrow> int \<Rightarrow> int" where
  "goDiv a b = wrap64 (sgn a * sgn b * (\<bar>a\<bar> div \<bar>b\<bar>))"

definition goPow :: "int \<Rightarrow> int \<Rightarrow> int" where
  "goPow a b = ((\<lambda>res. wrap64 (res * a)) ^^ nat b) 1"

definition lastOrV :: "Value \<Rightarrow> int" where
  "lastOrV v = (if MetaEnable v \<and> metaList v \<noteq> [] then last (metaList v) else V v)"

definition metaValue :: "int \<Rightarrow> int list \<Rightarrow> bool \<Rightarrow> Value" where
  "metaValue n xs en = zeroValue\<lparr>V := n, Meta := Some xs, MetaEnable := en\<rparr>"

subsection \<open>Chain operators\<close>

text \<open>
  One round of \<open>a\<close> and \<open>a_m\<close>: \<open>cur\<close> dice of \<open>m\<close> faces; a roll that reaches the
  threshold adds one die to the next round and one to the total. The source has the loop
  twice, with \<open>m = 10\<close> for \<open>a\<close>.
\<close>

fun roundA ::
  "nat \<Rightarrow> int \<Rightarrow> int \<Rightarrow> rand \<Rightarrow> int list \<Rightarrow> int \<Rightarrow> int \<Rightarrow> rand \<times> int list \<times> int \<times> int" where
  "roundA 0 m threshold g meta nextCount tot = (g, meta, nextCount, tot)"
| "roundA (Suc k) m threshold g meta nextCount tot =
     roundA k m threshold (snd (Intn m g)) (meta @ [fst (Intn m g) + 1])
       (if fst (Intn m g) + 1 \<ge> threshold then nextCount + 1 else nextCount)
       (if fst (Intn m g) + 1 \<ge> threshold then tot + 1 else tot)"

lemma roundA_length:
  "length (fst (snd (roundA k m threshold g meta nextCount tot))) = length meta + k"
  by (induction k arbitrary: g meta nextCount tot) simp_all

function chainA :: "int \<Rightarrow> int \<Rightarrow> int \<Rightarrow> rand \<Rightarrow> int list \<Rightarrow> int \<Rightarrow> rand \<times> int list \<times> int" where
  "chainA m threshold nextCount g meta tot =
     (if nextCount > 0 then
        (let rd = roundA (nat nextCount) m threshold g meta 0 tot
         in if length (fst (snd rd)) > 10000 then (fst rd, fst (snd rd), snd (snd (snd rd)))
            else chainA m threshold (fst (snd (snd rd))) (fst rd) (fst (snd rd))
                   (snd (snd (snd rd))))
      else (g, meta, tot))"
  by pat_completeness auto
termination
proof (relation "measure (\<lambda>(m, threshold, nextCount, g, meta, tot). 10001 - length meta)",
    goal_cases)
  case 1
  show ?case by simp
next
  case (2 m threshold nextCount g meta tot rd)
  then show ?case by (simp add: roundA_length)
qed

declare chainA.simps [simp del]

text \<open>
  One round of \<open>c\<close> and \<open>c_m\<close>: the round's maximum is tracked, and a roll that reaches
  the threshold adds one die to the next round.
\<close>

fun roundC ::
  "nat \<Rightarrow> int \<Rightarrow> int \<Rightarrow> rand \<Rightarrow> int list \<Rightarrow> int \<Rightarrow> int \<Rightarrow> rand \<times> int list \<times> int \<times> int" where
  "roundC 0 m threshold g meta nextC maxv = (g, meta, nextC, maxv)"
| "roundC (Suc k) m threshold g meta nextC maxv =
     roundC k m threshold (snd (Intn m g)) (meta @ [fst (Intn m g) + 1])
       (if fst (Intn m g) + 1 \<ge> threshold then nextC + 1 else nextC)
       (if fst (Intn m g) + 1 > maxv then fst (Intn m g) + 1 else maxv)"

lemma roundC_length:
  "length (fst (snd (roundC k m threshold g meta nextC maxv))) = length meta + k"
  by (induction k arbitrary: g meta nextC maxv) simp_all

function chainC :: "int \<Rightarrow> int \<Rightarrow> int \<Rightarrow> rand \<Rightarrow> int list \<Rightarrow> int \<Rightarrow> rand \<times> int list \<times> int" where
  "chainC m threshold nextC g meta tot =
     (if nextC > 0 then
        (let rd = roundC (nat nextC) m threshold g meta 0 0
         in if length (fst (snd rd)) > 10000
            then (fst rd, fst (snd rd), tot + snd (snd (snd rd)))
            else chainC m threshold (fst (snd (snd rd))) (fst rd) (fst (snd rd))
                   (tot + snd (snd (snd rd))))
      else (g, meta, tot))"
  by pat_completeness auto
termination
proof (relation "measure (\<lambda>(m, threshold, nextC, g, meta, tot). 10001 - length meta)",
    goal_cases)
  case 1
  show ?case by simp
next
  case (2 m threshold nextC g meta tot rd)
  then show ?case by (simp add: roundC_length)
qed

declare chainC.simps [simp del]

definition chainOp ::
  "bool \<Rightarrow> Value \<Rightarrow> Value \<Rightarrow> int \<Rightarrow> bool \<Rightarrow> Value list \<Rightarrow> RD \<Rightarrow> (Value list \<times> RD) outcome" where
  "chainOp additive leftV rightV m checkFaces st r =
     (if V leftV < 0 \<or> V leftV > 10000 then Fail ErrNodeLeftValInvalid
      else if V rightV \<le> 0 \<or> V rightV > 10000 then Fail ErrNodeRightValInvalid
      else if checkFaces \<and> (m \<le> 0 \<or> m > 10000) then Fail ErrNodeRightValInvalid
      else
        (let res = (if additive then chainA m (V rightV) (V leftV) (rng r) [] 0
                    else chainC m (V rightV) (V leftV) (rng r) [] 0)
         in Done (metaValue (snd (snd res)) (fst (snd res)) (fst (snd res) \<noteq> []) # st,
                  r\<lparr>rng := fst res\<rparr>)))"

subsection \<open>Percentile operators\<close>

definition pickTens :: "bool \<Rightarrow> int list \<Rightarrow> int" where
  "pickTens bonus rolls =
     foldl (\<lambda>m v. if bonus then (if v < m then v else m) else (if v > m then v else m))
       (hd rolls) (tl rolls)"

definition percentileOp ::
  "bool \<Rightarrow> Value \<Rightarrow> Value \<Rightarrow> Value list \<Rightarrow> RD \<Rightarrow> (Value list \<times> RD) outcome" where
  "percentileOp bonus leftB paramB st r =
     (if V paramB < 0 then Fail ErrNodeRightValInvalid
      else if V paramB > 10000 then Fail ErrNodeRightValInvalid
      else if V leftB > 10000 then Fail ErrNodeLeftValInvalid
      else
        (let tens = fst (Intn 10 (rng r));
             g1 = snd (Intn 10 (rng r));
             units = fst (Intn 10 g1);
             g2 = snd (Intn 10 g1);
             rolls = fst (rollMany (nat (V paramB)) 10 0 g2);
             g3 = snd (rollMany (nat (V paramB)) 10 0 g2);
             tens' = (if tens = 0 \<and> units = 0 then tens
                      else if rolls \<noteq> [] then pickTens bonus rolls else tens);
             out = (if tens = 0 \<and> units = 0 then 100 else tens' * 10 + units)
         in Done (metaValue out ([tens', units] @ rolls) True # st, r\<lparr>rng := g3\<rparr>)))"

subsection \<open>Literals and temp variables\<close>

text \<open>
  The loop of \<open>evalRPN\<close> that splits the inside of a bracketed tuple at top-level commas.
  The source updates the depth before it tests for a comma; a comma leaves the depth as
  it is, so the test reads the same depth here.
\<close>

function splitElems :: "string \<Rightarrow> string \<Rightarrow> int \<Rightarrow> bool \<Rightarrow> string list \<Rightarrow> string list" where
  "splitElems [] sb depth inStr elems = (if sb \<noteq> [] then elems @ [TrimSpace sb] else elems)"
| "splitElems (ch # cs) sb depth inStr elems =
     (if ch = dquote then splitElems cs (sb @ [ch]) depth (\<not> inStr) elems
      else if inStr then splitElems cs (sb @ [ch]) depth inStr elems
      else if ch = CHR '','' \<and> depth = 0 then splitElems cs [] depth inStr (elems @ [TrimSpace sb])
      else splitElems cs (sb @ [ch])
             (if ch = CHR ''('' \<or> ch = CHR ''['' then depth + 1
              else if ch = CHR '')'' \<or> ch = CHR '']'' then depth - 1
              else depth)
             inStr elems)"
  by pat_completeness auto
termination
  by (relation "measure (\<lambda>(cs, sb, depth, inStr, elems). length cs)") auto

definition tupleValue :: "string \<Rightarrow> Value" where
  "tupleValue tok =
     (let elems = splitElems (butlast (tl tok)) [] 0 False [];
          metaInts = concat (map (\<lambda>el. if el = [] then []
                                        else case Atoi el of Some vi \<Rightarrow> [vi] | None \<Rightarrow> []) elems);
          metaStrs = filter (\<lambda>el. el \<noteq> [] \<and> Atoi el = None) elems
      in if metaStrs \<noteq> [] \<and> metaInts \<noteq> [] then zeroValue\<lparr>MetaEnable := True, MetaStr := elems\<rparr>
         else if metaStrs \<noteq> [] then zeroValue\<lparr>MetaEnable := True, MetaStr := metaStrs\<rparr>
         else zeroValue\<lparr>Meta := Some metaInts, MetaEnable := True\<rparr>)"

definition tempKey :: "int \<Rightarrow> string" where
  "tempKey idx = CHR ''t'' # Itoa idx"

definition tempIndexOf :: "string \<Rightarrow> int" where
  "tempIndexOf tok =
     (if length tok > 2 then (case Atoi (drop 2 tok) of Some n \<Rightarrow> n | None \<Rightarrow> 1) else 1)"

definition tempRead :: "string \<Rightarrow> RD \<Rightarrow> Value" where
  "tempRead tok r =
     (let idx = tempIndexOf tok;
          val =
            (case temp r idx of
               Some vv \<Rightarrow> vv
             | None \<Rightarrow>
                 (case ValueTable r of
                    None \<Rightarrow> 0
                  | Some vt \<Rightarrow>
                      (case vt (ToUpper (tempKey idx)) of
                         Some vv \<Rightarrow> vv
                       | None \<Rightarrow> (case vt (tempKey idx) of Some vv \<Rightarrow> vv | None \<Rightarrow> 0))))
      in zeroValue\<lparr>V := val, TempIndex := idx, IsTemp := True\<rparr>)"

subsection \<open>Operators\<close>

definition binary ::
  "(Value \<Rightarrow> Value \<Rightarrow> Value list \<Rightarrow> RD \<Rightarrow> (Value list \<times> RD) outcome)
   \<Rightarrow> Value list \<Rightarrow> RD \<Rightarrow> (Value list \<times> RD) outcome" where
  "binary f st r = (case st of b # a # rest \<Rightarrow> f a b rest r | _ \<Rightarrow> Fail ErrNodeStackEmpty)"

definition ternary ::
  "(Value \<Rightarrow> Value \<Rightarrow> Value \<Rightarrow> Value list \<Rightarrow> RD \<Rightarrow> (Value list \<times> RD) outcome)
   \<Rightarrow> Value list \<Rightarrow> RD \<Rightarrow> (Value list \<times> RD) outcome" where
  "ternary f st r =
     (case st of c # b # a # rest \<Rightarrow> f a b c rest r | _ \<Rightarrow> Fail ErrNodeStackEmpty)"

definition opChoose :: "Value \<Rightarrow> Value \<Rightarrow> Value \<Rightarrow> Value list \<Rightarrow> RD \<Rightarrow> (Value list \<times> RD) outcome" where
  "opChoose a b c st r = (if V a \<noteq> 0 then Done (b # st, r) else Done (c # st, r))"

definition opArith :: "(int \<Rightarrow> int \<Rightarrow> int) \<Rightarrow> Value \<Rightarrow> Value \<Rightarrow> Value list \<Rightarrow> RD \<Rightarrow> (Value list \<times> RD) outcome" where
  "opArith f a b st r = Done (scalar (f (V a) (V b)) # st, r)"

definition opDiv :: "Value \<Rightarrow> Value \<Rightarrow> Value list \<Rightarrow> RD \<Rightarrow> (Value list \<times> RD) outcome" where
  "opDiv a b st r =
     (if V b = 0 then Fail ErrNodeRightValInvalid else Done (scalar (goDiv (V a) (V b)) # st, r))"

definition opPow :: "Value \<Rightarrow> Value \<Rightarrow> Value list \<Rightarrow> RD \<Rightarrow> (Value list \<times> RD) outcome" where
  "opPow a b st r =
     (if V a = 0 \<and> V b = 0 then Fail ErrNodeLeftValInvalid
      else if V b < 0 then Fail ErrNodeRightValInvalid
      else Done (scalar (goPow (V a) (V b)) # st, r))"

definition opD :: "Value \<Rightarrow> Value \<Rightarrow> Value list \<Rightarrow> RD \<Rightarrow> (Value list \<times> RD) outcome" where
  "opD timesV sidesV st r =
     (let sides = lastOrV sidesV; times = lastOrV timesV
      in if times \<le> 0 \<or> times > 10000 then Fail ErrNodeLeftValInvalid
         else if sides \<le> 0 \<or> sides > 10000 then Fail ErrNodeRightValInvalid
         else
           (let rolls = fst (rollMany (nat times) sides 1 (rng r))
            in Done (metaValue (sum64 rolls) rolls True # st,
                     r\<lparr>rng := snd (rollMany (nat times) sides 1 (rng r))\<rparr>)))"

text \<open>\<open>k\<close> and \<open>q\<close> call \<open>selectFromMeta\<close> with the modes \<open>kh\<close> and \<open>kl\<close>.\<close>

definition opKeep ::
  "subroll \<Rightarrow> string \<Rightarrow> Value \<Rightarrow> Value \<Rightarrow> Value list \<Rightarrow> RD \<Rightarrow> (Value list \<times> RD) outcome" where
  "opKeep sub mode left param st r =
     (if V param \<le> 0 then Fail ErrNodeRightValInvalid
      else case resolveMetaValues sub left r of
        Diverge \<Rightarrow> Diverge
      | Fail e \<Rightarrow> Fail e
      | Done (rolls, r') \<Rightarrow>
          Done (metaValue (snd (selectFromMeta rolls (V param) mode))
                  (fst (selectFromMeta rolls (V param) mode))
                  (fst (selectFromMeta rolls (V param) mode) \<noteq> []) # st, r'))"

definition opSelect ::
  "subroll \<Rightarrow> string \<Rightarrow> Value \<Rightarrow> Value \<Rightarrow> Value list \<Rightarrow> RD \<Rightarrow> (Value list \<times> RD) outcome" where
  "opSelect sub tok leftOp paramOp st r =
     (if V paramOp \<le> 0 then Fail ErrNodeRightValInvalid
      else case resolveMetaValues sub leftOp r of
        Diverge \<Rightarrow> Diverge
      | Fail e \<Rightarrow> Fail e
      | Done (rollsRaw, r') \<Rightarrow>
          if rollsRaw = [] then Fail ErrNodeLeftValInvalid
          else Done (metaValue (snd (selectFromMeta rollsRaw (V paramOp) tok))
                       (fst (selectFromMeta rollsRaw (V paramOp) tok))
                       (fst (selectFromMeta rollsRaw (V paramOp) tok) \<noteq> []) # st, r'))"

definition opAssign :: "Value \<Rightarrow> Value \<Rightarrow> Value list \<Rightarrow> RD \<Rightarrow> (Value list \<times> RD) outcome" where
  "opAssign leftA rightA st r =
     (if \<not> IsTemp leftA then Fail ErrNodeLeftValInvalid
      else Done (scalar (V rightA) # st,
             r\<lparr>temp := (temp r)(TempIndex leftA \<mapsto> V rightA),
               ValueTable :=
                 Some ((case ValueTable r of None \<Rightarrow> Map.empty | Some m \<Rightarrow> m)
                         (ToUpper (tempKey (TempIndex leftA)) \<mapsto> V rightA))\<rparr>))"

text \<open>\<open>strings.ReplaceAll\<close>, for a non-empty \<open>old\<close>; the evaluator passes \<open>{i}\<close>.\<close>

function ReplaceAll :: "string \<Rightarrow> string \<Rightarrow> string \<Rightarrow> string" where
  "ReplaceAll s old new =
     (if s = [] then []
      else if old \<noteq> [] \<and> take (length old) s = old
        then new @ ReplaceAll (drop (length old) s) old new
      else hd s # ReplaceAll (tl s) old new)"
  by pat_completeness auto
termination
  by (relation "measure (\<lambda>(s, old, new). length s)") auto

declare ReplaceAll.simps [simp del]

fun lpPass :: "string list \<Rightarrow> int \<Rightarrow> string list" where
  "lpPass [] idx = []"
| "lpPass (tmpl # ts) idx = ReplaceAll tmpl ''{i}'' (Itoa idx) # lpPass ts (idx + 1)"

fun lpStrings :: "nat \<Rightarrow> string list \<Rightarrow> int \<Rightarrow> string list" where
  "lpStrings 0 ts idx = []"
| "lpStrings (Suc k) ts idx = lpPass ts idx @ lpStrings k ts (idx + int (length ts))"

text \<open>
  \<open>lp\<close> builds a slice of the length of its operand times the count, which has no upper
  bound: \<open>make\<close> is given the product as capacity, wrapped to 64 bits, and \<open>append\<close> grows
  the slice where the capacity was too small. The run-time system panics in \<open>make\<close> or
  in \<open>append\<close> when a slice would take more than \<open>maxAlloc\<close> bytes, which is \<open>2^48\<close> on
  the 64-bit platforms with 48 address bits; an \<open>int\<close> takes 8 bytes and a string header
  16. Memory up to that size is taken to be there.
\<close>

definition maxAlloc :: int where
  "maxAlloc = 2 ^ 48"

definition sliceFits :: "int \<Rightarrow> int \<Rightarrow> bool" where
  "sliceFits width len = (width * len \<le> maxAlloc)"

definition opLp ::
  "subroll \<Rightarrow> Value \<Rightarrow> Value \<Rightarrow> Value list \<Rightarrow> RD \<Rightarrow> (Value list \<times> RD) outcome" where
  "opLp sub leftLp paramLp st r =
     (if V paramLp \<le> 0 then Fail ErrNodeRightValInvalid
      else if MetaStr leftLp \<noteq> [] then
        (if sliceFits 16 (int (length (MetaStr leftLp)) * V paramLp) then
           Done (zeroValue\<lparr>MetaEnable := True,
                           MetaStr := lpStrings (nat (V paramLp)) (MetaStr leftLp) 1\<rparr> # st, r)
         else Diverge)
      else case resolveMetaValues sub leftLp r of
        Diverge \<Rightarrow> Diverge
      | Fail e \<Rightarrow> Fail e
      | Done (rollsLp, r') \<Rightarrow>
          if sliceFits 8 (int (length rollsLp) * V paramLp) then
            (let newList = concat (replicate (nat (V paramLp)) rollsLp)
             in Done (metaValue (sum64 newList) newList (newList \<noteq> []) # st, r'))
          else Diverge)"

definition clampTo :: "string \<Rightarrow> int \<Rightarrow> int \<Rightarrow> int" where
  "clampTo tok n2 rv =
     (if tok = ''max'' then (if rv > n2 then n2 else rv) else (if rv < n2 then n2 else rv))"

definition opMinMax :: "string \<Rightarrow> Value \<Rightarrow> Value \<Rightarrow> Value list \<Rightarrow> RD \<Rightarrow> (Value list \<times> RD) outcome" where
  "opMinMax tok leftOp2 paramOp2 st r =
     (if V paramOp2 \<le> 0 then Fail ErrNodeRightValInvalid
      else
        (let rollsRaw2 = (if \<not> MetaEnable leftOp2 then [V leftOp2] else metaList leftOp2);
             resList = map (clampTo tok (V paramOp2)) rollsRaw2
         in Done (metaValue (sum64 resList) resList True # st, r)))"

definition opF :: "Value \<Rightarrow> Value \<Rightarrow> Value list \<Rightarrow> RD \<Rightarrow> (Value list \<times> RD) outcome" where
  "opF leftF rightF st r =
     (if V rightF \<le> 1 \<or> V rightF > 10000 then Fail ErrNodeRightValInvalid
      else if V leftF \<le> 0 \<or> V leftF > 10000 then Fail ErrNodeLeftValInvalid
      else
        (let rollsF = fst (rollMany (nat (V leftF)) 3 (- 1) (rng r))
         in Done (metaValue (sum64 rollsF) rollsF True # st,
                  r\<lparr>rng := snd (rollMany (nat (V leftF)) 3 (- 1) (rng r))\<rparr>)))"

definition positionOf :: "int \<Rightarrow> int list \<Rightarrow> int" where
  "positionOf idx rolls = (if idx > 0 then idx - 1 else int (length rolls) + idx)"

definition opSp :: "Value \<Rightarrow> Value \<Rightarrow> Value list \<Rightarrow> RD \<Rightarrow> (Value list \<times> RD) outcome" where
  "opSp leftSp paramSp st r =
     (if \<not> MetaEnable leftSp then
        (if V paramSp = 1 \<or> V paramSp = - 1
         then Done (metaValue (V leftSp) [V leftSp] True # st, r)
         else Fail ErrNodeLeftValInvalid)
      else if V paramSp = 0 then Fail ErrNodeRightValInvalid
      else
        (let pos = positionOf (V paramSp) (metaList leftSp)
         in if pos < 0 \<or> pos \<ge> int (length (metaList leftSp)) then Fail ErrNodeRightValInvalid
            else Done (metaValue (metaList leftSp ! nat pos) [metaList leftSp ! nat pos] True # st,
                       r)))"

definition opTp :: "Value \<Rightarrow> Value \<Rightarrow> Value list \<Rightarrow> RD \<Rightarrow> (Value list \<times> RD) outcome" where
  "opTp leftTp paramTp st r =
     (if \<not> MetaEnable leftTp then
        (if V paramTp = 1 \<or> V paramTp = - 1
         then Done (metaValue 0 [] False # st, r)
         else Fail ErrNodeLeftValInvalid)
      else if V paramTp = 0 then Fail ErrNodeRightValInvalid
      else
        (let pos2 = positionOf (V paramTp) (metaList leftTp)
         in if pos2 < 0 \<or> pos2 \<ge> int (length (metaList leftTp)) then Fail ErrNodeRightValInvalid
            else
              (let newList = take (nat pos2) (metaList leftTp) @ drop (nat pos2 + 1) (metaList leftTp)
               in Done (metaValue (sum64 newList) newList (newList \<noteq> []) # st, r))))"

text \<open>The \<open>switch\<close> of \<open>evalRPN\<close>, in the order of its cases.\<close>

definition evalOp :: "subroll \<Rightarrow> string \<Rightarrow> Value list \<Rightarrow> RD \<Rightarrow> (Value list \<times> RD) outcome" where
  "evalOp sub tok st r =
     (if tok = '':'' then ternary opChoose st r
      else if tok = ''+'' then binary (opArith (\<lambda>x y. wrap64 (x + y))) st r
      else if tok = ''-'' then binary (opArith (\<lambda>x y. wrap64 (x - y))) st r
      else if tok = ''*'' then binary (opArith (\<lambda>x y. wrap64 (x * y))) st r
      else if tok = ''/'' then binary opDiv st r
      else if tok = ''>'' then binary (opArith (\<lambda>x y. if x > y then 1 else 0)) st r
      else if tok = ''<'' then binary (opArith (\<lambda>x y. if x < y then 1 else 0)) st r
      else if tok = ''&'' then binary (opArith (\<lambda>x y. x AND y)) st r
      else if tok = ''|'' then binary (opArith (\<lambda>x y. x OR y)) st r
      else if tok = ''^'' then binary opPow st r
      else if tok = ''d'' then binary opD st r
      else if tok = ''k'' then binary (opKeep sub ''kh'') st r
      else if tok = ''a'' then binary (\<lambda>leftV rightV. chainOp True leftV rightV 10 False) st r
      else if tok = ''a_m'' then
        ternary (\<lambda>leftV rightV facesV. chainOp True leftV rightV (V facesV) True) st r
      else if tok = ''c'' then binary (\<lambda>leftC rightC. chainOp False leftC rightC 10 False) st r
      else if tok = ''c_m'' then
        ternary (\<lambda>leftV rightV facesV. chainOp False leftV rightV (V facesV) True) st r
      else if tok = ''b'' then binary (percentileOp True) st r
      else if tok = ''p'' then binary (percentileOp False) st r
      else if tok = ''='' then binary opAssign st r
      else if tok = ''lp'' then binary (opLp sub) st r
      else if tok = ''q'' then binary (opKeep sub ''kl'') st r
      else if tok = ''kh'' \<or> tok = ''kl'' \<or> tok = ''dh'' \<or> tok = ''dl'' then
        binary (opSelect sub tok) st r
      else if tok = ''min'' \<or> tok = ''max'' then binary (opMinMax tok) st r
      else if tok = ''f'' then binary opF st r
      else if tok = ''sp'' then binary opSp st r
      else if tok = ''tp'' then binary opTp st r
      else Fail ErrUnknownGenerate)"

definition evalStep :: "subroll \<Rightarrow> string \<Rightarrow> Value list \<Rightarrow> RD \<Rightarrow> (Value list \<times> RD) outcome" where
  "evalStep sub tok st r =
     (case Atoi tok of
        Some v \<Rightarrow> Done (scalar v # st, r)
      | None \<Rightarrow>
          if 2 \<le> length tok \<and> hd tok = CHR ''['' \<and> last tok = CHR '']''
            then Done (tupleValue tok # st, r)
          else if 2 \<le> length tok \<and> hd tok = dquote \<and> last tok = dquote
            then Done (zeroValue\<lparr>MetaEnable := True, MetaStr := [butlast (tl tok)]\<rparr> # st, r)
          else if tok \<noteq> [] \<and> hd tok = CHR ''$'' then Done (tempRead tok r # st, r)
          else evalOp sub tok st r)"

fun evalLoop :: "subroll \<Rightarrow> string list \<Rightarrow> Value list \<Rightarrow> RD \<Rightarrow> (Value list \<times> RD) outcome" where
  "evalLoop sub [] st r = Done (st, r)"
| "evalLoop sub (tok # rest) st r =
     (case evalStep sub tok st r of
        Diverge \<Rightarrow> Diverge
      | Fail e \<Rightarrow> Fail e
      | Done (st', r') \<Rightarrow> evalLoop sub rest st' r')"

definition evalRPN :: "subroll \<Rightarrow> string list \<Rightarrow> RD \<Rightarrow> (Value \<times> RD) outcome" where
  "evalRPN sub rpn r =
     (case evalLoop sub rpn [] r of
        Diverge \<Rightarrow> Diverge
      | Fail e \<Rightarrow> Fail e
      | Done (st, r') \<Rightarrow>
          if length st \<noteq> 1 then Fail ErrUnknownGenerate else Done (hd st, r'))"

section \<open>Ternary dispatcher\<close>

text \<open>
  \<open>matchBack\<close> walks from a closing parenthesis toward the start and counts the steps to
  its opening parenthesis; \<open>matchFwd\<close> does the same from an opening parenthesis toward
  the end.
\<close>

fun matchBack :: "string list \<Rightarrow> int \<Rightarrow> nat \<Rightarrow> nat option" where
  "matchBack [] d n = None"
| "matchBack (t # ts) d n =
     (if (if t = '')'' then d + 1 else d) - (if t = ''('' then 1 else 0) = 0 then Some n
      else matchBack ts ((if t = '')'' then d + 1 else d) - (if t = ''('' then 1 else 0)) (Suc n))"

fun matchFwd :: "string list \<Rightarrow> int \<Rightarrow> nat \<Rightarrow> nat option" where
  "matchFwd [] d n = None"
| "matchFwd (t # ts) d n =
     (if (if t = ''('' then d + 1 else d) - (if t = '')'' then 1 else 0) = 0 then Some n
      else matchFwd ts ((if t = ''('' then d + 1 else d) - (if t = '')'' then 1 else 0)) (Suc n))"

datatype foldSite = NoSite | BadSite | Site nat nat

text \<open>
  The search of \<open>evalTokens\<close> for a closing parenthesis whose opening one does not follow
  \<open>?\<close> or \<open>:\<close>; the second argument lists the indices still to be tried.
\<close>

fun findSite :: "string list \<Rightarrow> nat list \<Rightarrow> foldSite" where
  "findSite tokens [] = NoSite"
| "findSite tokens (i # rest) =
     (if tokens ! i \<noteq> '')'' then findSite tokens rest
      else case matchBack (rev (take (Suc i) tokens)) 0 0 of
        None \<Rightarrow> BadSite
      | Some n \<Rightarrow>
          if i - n > 0 \<and> (tokens ! (i - n - 1) = ''?'' \<or> tokens ! (i - n - 1) = '':'')
          then findSite tokens rest
          else Site (i - n) i)"

function trimOuter :: "string list \<Rightarrow> string list" where
  "trimOuter tokens =
     (if 2 \<le> length tokens \<and> hd tokens = ''(''
         \<and> matchFwd tokens 0 0 = Some (length tokens - 1)
      then trimOuter (butlast (tl tokens))
      else tokens)"
  by pat_completeness auto
termination
  by (relation "measure length") auto

declare trimOuter.simps [simp del]

datatype ternSite = NoTern | BadTern | Tern nat nat

fun findColon :: "string list \<Rightarrow> nat \<Rightarrow> int \<Rightarrow> int \<Rightarrow> nat option" where
  "findColon [] j depth qcount = None"
| "findColon (t # ts) j depth qcount =
     (if t = ''('' then findColon ts (Suc j) (depth + 1) qcount
      else if t = '')'' then findColon ts (Suc j) (depth - 1) qcount
      else if t = ''?'' \<and> depth = 0 then findColon ts (Suc j) depth (qcount + 1)
      else if t = '':'' \<and> depth = 0 then
        (if qcount - 1 = 0 then Some j else findColon ts (Suc j) depth (qcount - 1))
      else findColon ts (Suc j) depth qcount)"

fun findQuestion :: "string list \<Rightarrow> nat \<Rightarrow> int \<Rightarrow> ternSite" where
  "findQuestion [] i depth = NoTern"
| "findQuestion (t # ts) i depth =
     (if t = ''('' then findQuestion ts (Suc i) (depth + 1)
      else if t = '')'' then findQuestion ts (Suc i) (depth - 1)
      else if t = ''?'' \<and> depth = 0 then
        (case findColon ts (Suc i) depth 1 of None \<Rightarrow> BadTern | Some j \<Rightarrow> Tern i j)
      else findQuestion ts (Suc i) depth)"

lemma matchBack_bound: "matchBack ts d n = Some k \<Longrightarrow> n \<le> k \<and> k < n + length ts"
  by (induction ts d n rule: matchBack.induct) (auto split: if_splits)

lemma findSite_bound:
  "findSite tokens is = Site openIdx closeIdx \<Longrightarrow> \<forall>i\<in>set is. i < length tokens
   \<Longrightarrow> openIdx < closeIdx \<and> closeIdx < length tokens"
proof (induction "is")
  case Nil
  then show ?case by simp
next
  case (Cons i rest)
  show ?case
  proof (cases "tokens ! i = '')''")
    case False
    with Cons show ?thesis by simp
  next
    case True
    note close = this
    show ?thesis
    proof (cases "matchBack (rev (take (Suc i) tokens)) 0 0")
      case None
      with Cons close show ?thesis by simp
    next
      case (Some n)
      from Cons.prems(2) have ilen: "i < length tokens" by simp
      from matchBack_bound [OF Some] ilen have nle: "n \<le> i" by simp
      have "n \<noteq> 0"
      proof
        assume "n = 0"
        with Some ilen close have "matchBack (rev (take i tokens)) 1 (Suc 0) = Some 0"
          by (simp add: take_Suc_conv_app_nth split: if_splits)
        from matchBack_bound [OF this] show False by simp
      qed
      with Cons close Some nle ilen show ?thesis
        by (auto split: if_splits)
    qed
  qed
qed

lemma findSite_upt:
  "findSite tokens [0..<length tokens] = Site openIdx closeIdx
   \<Longrightarrow> openIdx < closeIdx \<and> closeIdx < length tokens"
  by (rule findSite_bound) auto

lemma findColon_bound: "findColon ts j depth qcount = Some k \<Longrightarrow> j \<le> k \<and> k < j + length ts"
  by (induction ts j depth qcount rule: findColon.induct) (auto split: if_splits)

lemma findQuestion_bound:
  "findQuestion ts i depth = Tern a b \<Longrightarrow> i \<le> a \<and> a < b \<and> b < i + length ts"
proof (induction ts i depth rule: findQuestion.induct)
  case (1 i depth)
  then show ?case by simp
next
  case (2 t ts i depth)
  then show ?case
    by (auto split: if_splits option.splits dest: findColon_bound)
qed

lemma trimOuter_length: "length (trimOuter tokens) \<le> length tokens"
proof (induction tokens rule: trimOuter.induct)
  case (1 tokens)
  show ?case
  proof (cases "2 \<le> length tokens \<and> hd tokens = ''(''
         \<and> matchFwd tokens 0 0 = Some (length tokens - 1)")
    case True
    with 1 have "length (trimOuter (butlast (tl tokens))) \<le> length (butlast (tl tokens))"
      by simp
    with True show ?thesis by (subst trimOuter.simps) simp
  next
    case False
    then show ?thesis by (subst trimOuter.simps) auto
  qed
qed

lemma findQuestion_trim:
  "findQuestion (trimOuter tokens) 0 0 = Tern i j
   \<Longrightarrow> i < j \<and> j < length (trimOuter tokens) \<and> length (trimOuter tokens) \<le> length tokens"
  using findQuestion_bound [of "trimOuter tokens" 0 0 i j] trimOuter_length [of tokens]
  by simp

text \<open>
  \<open>evalTokens\<close>. The first loop of the source replaces one parenthesised group by the
  literal of its value and starts over; the model recurses on the shortened tokens, which
  runs the same loop again before the later steps.
\<close>

function evalTokens :: "subroll \<Rightarrow> string list \<Rightarrow> RD \<Rightarrow> (Value \<times> RD) outcome" where
  "evalTokens sub tokens r =
     (case findSite tokens [0..<length tokens] of
        BadSite \<Rightarrow> Fail ErrUnknownGenerate
      | Site openIdx closeIdx \<Rightarrow>
          (case evalTokens sub (take (closeIdx - openIdx - 1) (drop (openIdx + 1) tokens)) r of
             Diverge \<Rightarrow> Diverge
           | Fail e \<Rightarrow> Fail e
           | Done (v, r') \<Rightarrow>
               evalTokens sub
                 (take openIdx tokens @ [Itoa (V v)] @ drop (closeIdx + 1) tokens) r')
      | NoSite \<Rightarrow>
          (case findQuestion (trimOuter tokens) 0 0 of
             BadTern \<Rightarrow> Fail ErrUnknownGenerate
           | Tern i j \<Rightarrow>
               (case evalTokens sub (take i (trimOuter tokens)) r of
                  Diverge \<Rightarrow> Diverge
                | Fail e \<Rightarrow> Fail e
                | Done (condVal, r') \<Rightarrow>
                    if V condVal \<noteq> 0
                    then evalTokens sub (take (j - i - 1) (drop (i + 1) (trimOuter tokens))) r'
                    else evalTokens sub (drop (j + 1) (trimOuter tokens)) r')
           | NoTern \<Rightarrow>
               (case toRPN (preProcessTokens (trimOuter tokens) (DefaultFaces r)) of
                  None \<Rightarrow> Fail ErrUnknownGenerate
                | Some rpn \<Rightarrow> evalRPN sub rpn r)))"
  by pat_completeness auto
termination
proof (relation "measure (\<lambda>(sub, tokens, r). length tokens)", goal_cases)
  case 1
  show ?case by simp
next
  case 2
  then show ?case
    by (auto dest!: findSite_upt findQuestion_trim)
next
  case 3
  then show ?case
    by (auto dest!: findSite_upt findQuestion_trim)
next
  case 4
  then show ?case
    by (auto dest!: findSite_upt findQuestion_trim)
next
  case 5
  then show ?case
    by (auto dest!: findSite_upt findQuestion_trim)
next
  case 6
  then show ?case
    by (auto dest!: findSite_upt findQuestion_trim)
qed

declare evalTokens.simps [simp del]

section \<open>Entry point\<close>

definition isBrace :: "char \<Rightarrow> bool" where
  "isBrace ch = (ch = CHR ''{'' \<or> ch = CHR ''}'')"

definition notClose :: "char \<Rightarrow> bool" where
  "notClose ch = (ch \<noteq> CHR ''}'')"

text \<open>
  \<open>replaceVars\<close> rewrites each leftmost match of the pattern \<open>\{([^}]+)\}\<close>: an opening
  brace, the longest run of bytes other than a closing brace, which must not be empty,
  and a closing brace. The key is the match with \<open>strings.Trim(m, "{}")\<close> applied.
\<close>

function replaceLoop :: "(string \<rightharpoonup> int) \<Rightarrow> string \<Rightarrow> string" where
  "replaceLoop vt [] = []"
| "replaceLoop vt (c # cs) =
     (if c = CHR ''{'' \<and> takeWhile notClose cs \<noteq> [] \<and> dropWhile notClose cs \<noteq> [] then
        (case vt (ToUpper (rev (dropWhile isBrace (rev (dropWhile isBrace
                     (c # takeWhile notClose cs @ ''}'')))))) of
           Some v \<Rightarrow> Itoa v
         | None \<Rightarrow> c # takeWhile notClose cs @ ''}'')
        @ replaceLoop vt (tl (dropWhile notClose cs))
      else c # replaceLoop vt cs)"
  by pat_completeness auto
termination
proof (relation "measure (\<lambda>(vt, s). length s)", goal_cases)
  case 1
  show ?case by simp
next
  case (2 vt c cs)
  have "length (dropWhile notClose cs) \<le> length cs"
    by (rule length_dropWhile_le)
  then show ?case by simp
next
  case (3 vt c cs)
  show ?case by simp
qed

definition replaceVars :: "RD \<Rightarrow> string \<Rightarrow> string" where
  "replaceVars r s = (case ValueTable r of None \<Rightarrow> s | Some vt \<Rightarrow> replaceLoop vt s)"

text \<open>
  \<open>New\<close> seeds a random source from the clock; tests replace it, and here it is an
  argument. \<open>rollValue\<close> is \<open>Roll\<close> up to the value that \<open>evalTokens\<close> returns.
\<close>

definition New :: "(string \<rightharpoonup> int) option \<Rightarrow> rand \<Rightarrow> RD" where
  "New valueTable g = \<lparr>ValueTable = valueTable, rng = g, temp = Map.empty, DefaultFaces = 100\<rparr>"

definition rollValue :: "subroll \<Rightarrow> string \<Rightarrow> RD \<Rightarrow> (Value \<times> RD) outcome" where
  "rollValue sub expr r =
     (case tokenize (replaceVars r (ToLower expr)) of
        None \<Rightarrow> Fail ErrInputRawInvalid
      | Some tokens \<Rightarrow> evalTokens sub tokens r)"

text \<open>
  Nested evaluation recurses through the whole pipeline. \<open>RollN n\<close> is the nested
  evaluator that may itself nest \<open>n - 1\<close> levels deep; beyond that depth the outcome is
  \<open>Diverge\<close>. \<open>Roll n\<close> evaluates an expression whose tuples nest at most \<open>n\<close> levels
  of sub-expressions.
\<close>

primrec RollN :: "nat \<Rightarrow> subroll" where
  "RollN 0 expr valueTable g = Diverge"
| "RollN (Suc n) expr valueTable g =
     (case rollValue (RollN n) expr (New valueTable g) of
        Diverge \<Rightarrow> Diverge
      | Fail e \<Rightarrow> Fail e
      | Done (v, r) \<Rightarrow> Done (V v, ValueTable r, rng r))"

definition Roll :: "nat \<Rightarrow> string \<Rightarrow> (string \<rightharpoonup> int) option \<Rightarrow> rand \<Rightarrow> (Value \<times> RD) outcome" where
  "Roll n expr valueTable g = rollValue (RollN n) expr (New valueTable g)"

section \<open>Observations\<close>

text \<open>What a caller reads after \<open>Roll\<close>: the value, the integer meta list, the error, and
  the evaluator's temp store and variable table.\<close>

definition outValue :: "(Value \<times> RD) outcome \<Rightarrow> int option" where
  "outValue x = (case x of Done (v, r) \<Rightarrow> Some (V v) | _ \<Rightarrow> None)"

definition outMeta :: "(Value \<times> RD) outcome \<Rightarrow> int list option" where
  "outMeta x =
     (case x of Done (v, r) \<Rightarrow> (if MetaEnable v then Some (metaList v) else None) | _ \<Rightarrow> None)"

definition outError :: "(Value \<times> RD) outcome \<Rightarrow> ErrorType option" where
  "outError x = (case x of Fail e \<Rightarrow> Some e | _ \<Rightarrow> None)"

definition outTemp :: "(Value \<times> RD) outcome \<Rightarrow> int \<Rightarrow> int option" where
  "outTemp x idx = (case x of Done (v, r) \<Rightarrow> temp r idx | _ \<Rightarrow> None)"

definition outTable :: "(Value \<times> RD) outcome \<Rightarrow> string \<Rightarrow> int option" where
  "outTable x key =
     (case x of
        Done (v, r) \<Rightarrow> (case ValueTable r of None \<Rightarrow> None | Some m \<Rightarrow> m key)
      | _ \<Rightarrow> None)"

definition outList :: "(int list \<times> RD) outcome \<Rightarrow> int list option" where
  "outList x = (case x of Done (xs, r) \<Rightarrow> Some xs | _ \<Rightarrow> None)"

text \<open>A random source that yields the listed numbers and then zeros.\<close>

definition fixedRand :: "int list \<Rightarrow> rand" where
  "fixedRand xs = \<lparr>draws = (\<lambda>i. if i < length xs then xs ! i else 0), used = 0\<rparr>"

section \<open>The result of an evaluation\<close>

text \<open>
  \<open>strings.Join\<close>.
\<close>

fun Join :: "string list \<Rightarrow> string \<Rightarrow> string" where
  "Join [] sep = []"
| "Join [a] sep = a"
| "Join (a # b # rest) sep = a @ sep @ Join (b # rest) sep"

record Result =
  Value :: int
  ResMin :: int
  ResMax :: int
  Detail :: string
  MetaTuple :: "MetaElem list option"
  Error :: "ErrorType option"

text \<open>
  \<open>buildDetail\<close> reads the fields \<open>Min\<close> and \<open>Max\<close> of the result under construction,
  here the arguments \<open>resMin\<close> and \<open>resMax\<close>, and the evaluator's temp store and table.
  It collects the keys of each of the two maps in a loop \<open>for k := range\<close> and sorts them
  (\<open>sort.Ints\<close>, \<open>sort.Strings\<close>); \<open>detailOf\<close> is the function of the sorted keys. The
  order in which the run-time system ranges over a map is not fixed and may change from
  one loop to the next: \<open>tempOrder\<close> and \<open>tableOrder\<close> give, for a map, the list of its
  keys as the loop meets them. The list has every key once, so it is empty exactly when
  the map is (the tests \<open>len(r.temp) > 0\<close> and \<open>len(r.ValueTable) > 0\<close>).
\<close>

definition detailOf :: "Value \<Rightarrow> int \<Rightarrow> int \<Rightarrow> int list \<Rightarrow> string list \<Rightarrow> RD \<Rightarrow> string" where
  "detailOf val resMin resMax tempKeys tableKeys r =
     Join
       ([Itoa (V val)]
        @ (if MetaEnable val then
             (if MetaStr val \<noteq> [] then
                [''['' @ Join (map (\<lambda>s. dquote # s @ [dquote]) (MetaStr val)) '','' @ '']'']
              else case Meta val of
                None \<Rightarrow> []
              | Some xs \<Rightarrow> [''['' @ Join (map Itoa xs) '','' @ '']''])
           else [])
        @ (if V val \<noteq> 0 \<and> resMin \<noteq> resMax
           then [''min='' @ Itoa resMin, ''max='' @ Itoa resMax] else [])
        @ (if tempKeys \<noteq> [] then
             [''temp:{''
              @ Join (map (\<lambda>k. ''t'' @ Itoa k @ ''='' @ Itoa (the (temp r k))) tempKeys) '',''
              @ ''}'']
           else [])
        @ (if tableKeys \<noteq> [] then
             [''vt:{''
              @ Join (map (\<lambda>k. k @ ''='' @ Itoa (the (the (ValueTable r) k))) tableKeys) '',''
              @ ''}'']
           else []))
       '' ''"

definition buildDetail ::
  "((int \<rightharpoonup> int) \<Rightarrow> int list) \<Rightarrow> ((string \<rightharpoonup> int) \<Rightarrow> string list)
   \<Rightarrow> Value \<Rightarrow> int \<Rightarrow> int \<Rightarrow> RD \<Rightarrow> string" where
  "buildDetail tempOrder tableOrder val resMin resMax r =
     detailOf val resMin resMax (sort (tempOrder (temp r)))
       (sort (case ValueTable r of None \<Rightarrow> [] | Some vt \<Rightarrow> tableOrder vt)) r"

text \<open>
  What \<open>Roll\<close> leaves in \<open>r.res\<close> of an evaluator newly made by \<open>New\<close>, from the outcome
  of \<open>evalTokens\<close>: after an error only the field \<open>Error\<close> is set, and the other fields
  keep the zero values they have in a new evaluator. The integer meta list is copied to
  \<open>MetaTuple\<close>; \<open>getFromMetaTuple\<close> then returns the same integers, which are copied once
  more.
\<close>

definition resultOf ::
  "((int \<rightharpoonup> int) \<Rightarrow> int list) \<Rightarrow> ((string \<rightharpoonup> int) \<Rightarrow> string list)
   \<Rightarrow> (Value \<times> RD) outcome \<Rightarrow> Result option" where
  "resultOf tempOrder tableOrder x =
     (case x of
        Diverge \<Rightarrow> None
      | Fail e \<Rightarrow>
          Some \<lparr>Value = 0, ResMin = 0, ResMax = 0, Detail = [], MetaTuple = None, Error = Some e\<rparr>
      | Done (val, r) \<Rightarrow>
          Some \<lparr>Value = V val, ResMin = V val, ResMax = V val,
                Detail = buildDetail tempOrder tableOrder val (V val) (V val) r,
                MetaTuple =
                  (if MetaEnable val then
                     (if MetaStr val \<noteq> [] then Some (map MStr (MetaStr val))
                      else Some (map MInt (metaList val)))
                   else None),
                Error = None\<rparr>)"

section \<open>The sum in 64 bits\<close>

text \<open>
  Every sum of the evaluator is a loop \<open>s += v\<close> over Go's \<open>int\<close>, in the model \<open>sum64\<close>.
  What the loop returns is the sum of the list reduced to the 64-bit range: a number of
  that range that differs from the sum by a multiple of \<open>2^64\<close>, and the sum itself
  when the sum is in the range.
\<close>

lemma wrap64_add_left: "wrap64 (wrap64 a + b) = wrap64 (a + b)"
proof -
  have "((a + 2 ^ 63) mod 2 ^ 64 + b) mod 2 ^ 64 = (a + 2 ^ 63 + b) mod (2 ^ 64 :: int)"
    by (rule mod_add_left_eq)
  then show ?thesis by (simp add: wrap64_def algebra_simps)
qed

lemma sum64_from:
  "foldl (\<lambda>s v. wrap64 (s + v)) (wrap64 a) xs = wrap64 (a + sum_list xs)"
proof (induction xs arbitrary: a)
  case Nil
  show ?case by simp
next
  case (Cons x xs)
  have "foldl (\<lambda>s v. wrap64 (s + v)) (wrap64 a) (x # xs)
      = foldl (\<lambda>s v. wrap64 (s + v)) (wrap64 (a + x)) xs"
    by (simp add: wrap64_add_left)
  also have "\<dots> = wrap64 (a + x + sum_list xs)" by (rule Cons.IH)
  finally show ?case by (simp add: add.assoc)
qed

lemma sum64_sum_list: "sum64 xs = wrap64 (sum_list xs)"
proof -
  have "wrap64 0 = 0" by (simp add: wrap64_def)
  with sum64_from [of 0 xs] show ?thesis by (simp add: sum64_def)
qed

lemma wrap64_congruent: "(wrap64 x - x) mod 2 ^ 64 = 0"
proof -
  have "((x + 2 ^ 63) mod 2 ^ 64 - (x + 2 ^ 63)) mod 2 ^ 64 = ((x + 2 ^ 63) - (x + 2 ^ 63)) mod (2 ^ 64 :: int)"
    by (rule mod_diff_left_eq)
  then show ?thesis by (simp add: wrap64_def algebra_simps)
qed

lemma sum64_spec:
  "minInt \<le> sum64 xs \<and> sum64 xs \<le> maxInt \<and> (sum64 xs - sum_list xs) mod 2 ^ 64 = 0
   \<and> (minInt \<le> sum_list xs \<and> sum_list xs \<le> maxInt \<longrightarrow> sum64 xs = sum_list xs)"
proof -
  have r: "minInt \<le> wrap64 y \<and> wrap64 y \<le> maxInt" for y
    by (simp add: wrap64_def minInt_def maxInt_def)
  have e: "minInt \<le> y \<and> y \<le> maxInt \<longrightarrow> wrap64 y = y" for y
    by (simp add: wrap64_def minInt_def maxInt_def)
  from r [of "sum_list xs"] e [of "sum_list xs"] wrap64_congruent [of "sum_list xs"]
  show ?thesis by (simp only: sum64_sum_list)
qed

section \<open>Properties of the arithmetic operators\<close>

lemmas tok_simps = evalStep_def evalOp_def Atoi_def isDigit_def digitChars_def dquote_def
lemma evalStep_div: "evalStep sub ''/'' st r = binary opDiv st r"
  by (simp add: tok_simps)
lemma evalStep_kh: "evalStep sub ''kh'' st r = binary (opSelect sub ''kh'') st r"
  by (simp add: tok_simps)
lemma wrap64_id: "minInt \<le> x \<Longrightarrow> x \<le> maxInt \<Longrightarrow> wrap64 x = x"
  by (simp add: wrap64_def minInt_def maxInt_def)
lemma tdiv_props:
  fixes a b :: int
  assumes "b \<noteq> 0"
  shows "a = (sgn a * sgn b * (\<bar>a\<bar> div \<bar>b\<bar>)) * b + sgn a * (\<bar>a\<bar> mod \<bar>b\<bar>)"
proof -
  have "\<bar>a\<bar> = (\<bar>a\<bar> div \<bar>b\<bar>) * \<bar>b\<bar> + \<bar>a\<bar> mod \<bar>b\<bar>" by simp
  then have "sgn a * \<bar>a\<bar> = sgn a * ((\<bar>a\<bar> div \<bar>b\<bar>) * \<bar>b\<bar> + \<bar>a\<bar> mod \<bar>b\<bar>)" by simp
  moreover have "sgn a * \<bar>a\<bar> = a" by (simp add: mult_sgn_abs)
  moreover have "\<bar>b\<bar> = sgn b * b" by (simp add: abs_sgn sgn_mult_self_eq mult.commute)
  ultimately show ?thesis by (simp add: algebra_simps)
qed
lemma tdiv_abs:
  fixes a b :: int
  assumes "b \<noteq> 0"
  shows "\<bar>sgn a * sgn b * (\<bar>a\<bar> div \<bar>b\<bar>)\<bar> = \<bar>a\<bar> div \<bar>b\<bar>"
proof (cases "a = 0")
  case True then show ?thesis by simp
next
  case False
  have "0 \<le> \<bar>a\<bar> div \<bar>b\<bar>" by (simp add: pos_imp_zdiv_nonneg_iff assms)
  with False assms show ?thesis by (simp add: abs_mult)
qed
lemma tdiv_bound:
  fixes a b :: int
  assumes "minInt \<le> a" "a \<le> maxInt" "b \<noteq> 0" "\<not> (a = minInt \<and> b = - 1)"
  shows "minInt \<le> sgn a * sgn b * (\<bar>a\<bar> div \<bar>b\<bar>) \<and> sgn a * sgn b * (\<bar>a\<bar> div \<bar>b\<bar>) \<le> maxInt"
proof (cases "a = minInt")
  case False
  with assms have "\<bar>a\<bar> \<le> maxInt" by (simp add: minInt_def maxInt_def)
  moreover have "\<bar>a\<bar> div \<bar>b\<bar> \<le> \<bar>a\<bar> div 1"
    using assms(3) by (intro zdiv_mono2) simp_all
  ultimately have "\<bar>sgn a * sgn b * (\<bar>a\<bar> div \<bar>b\<bar>)\<bar> \<le> maxInt"
    using tdiv_abs [OF assms(3), of a] by simp
  then show ?thesis unfolding minInt_def maxInt_def abs_le_iff by linarith
next
  case True
  show ?thesis
  proof (cases "b = 1")
    case True
    with \<open>a = minInt\<close> show ?thesis by (simp add: minInt_def maxInt_def)
  next
    case False
    with assms True have "2 \<le> \<bar>b\<bar>" by simp
    then have "\<bar>a\<bar> div \<bar>b\<bar> \<le> \<bar>a\<bar> div 2"
      by (intro zdiv_mono2) simp_all
    with True have "\<bar>a\<bar> div \<bar>b\<bar> \<le> maxInt" by (simp add: minInt_def maxInt_def)
    then have "\<bar>sgn a * sgn b * (\<bar>a\<bar> div \<bar>b\<bar>)\<bar> \<le> maxInt"
      using tdiv_abs [OF assms(3), of a] by simp
    then show ?thesis unfolding minInt_def maxInt_def abs_le_iff by linarith
  qed
qed

text \<open>
  The expression \<open>(0-7)/2\<close> has the value \<open>-3\<close>, for every table, random source and
  nesting bound.
\<close>

lemma example_div: "outValue (Roll n ''(0-7)/2'' vt g) = Some (- 3)"
proof (cases vt)
  case None
  show ?thesis unfolding None by code_simp
next
  case (Some m)
  show ?thesis unfolding Some by code_simp
qed

text \<open>
  Claim C10, amended. For operands in the 64-bit range and a divisor other than zero,
  \<open>/\<close> pushes the quotient truncated toward zero (the remainder is smaller than the
  divisor in absolute value and has the sign of the dividend or is zero), except for the
  pair \<open>(-2^63, -1)\<close>. For a dividend other than \<open>-2^63\<close>, negating the dividend negates
  the quotient. \<open>(0-7)/2\<close> evaluates to \<open>-3\<close>.
\<close>

theorem C10_division:
  "(V b \<noteq> 0 \<and> minInt \<le> V a \<and> V a \<le> maxInt \<and> \<not> (V a = minInt \<and> V b = - 1)
      \<longrightarrow> (\<exists>q rem. evalStep sub ''/'' (b # a # st) r = Done (scalar q # st, r)
             \<and> V a = q * V b + rem \<and> \<bar>rem\<bar> < \<bar>V b\<bar> \<and> 0 \<le> rem * V a))
   \<and> (V b \<noteq> 0 \<and> minInt < V a \<and> V a \<le> maxInt
      \<longrightarrow> (\<exists>q. evalStep sub ''/'' (b # a # st) r = Done (scalar q # st, r)
             \<and> evalStep sub ''/'' (b # a\<lparr>V := - V a\<rparr> # st) r = Done (scalar (- q) # st, r)))
   \<and> outValue (Roll n ''(0-7)/2'' vt g) = Some (- 3)"
proof (intro conjI impI)
  assume h: "V b \<noteq> 0 \<and> minInt \<le> V a \<and> V a \<le> maxInt \<and> \<not> (V a = minInt \<and> V b = - 1)"
  let ?q = "sgn (V a) * sgn (V b) * (\<bar>V a\<bar> div \<bar>V b\<bar>)"
  let ?rem = "sgn (V a) * (\<bar>V a\<bar> mod \<bar>V b\<bar>)"
  from h have bnd: "minInt \<le> ?q \<and> ?q \<le> maxInt" by (intro tdiv_bound) simp_all
  then have "goDiv (V a) (V b) = ?q" by (simp add: goDiv_def wrap64_id)
  with h have 1: "evalStep sub ''/'' (b # a # st) r = Done (scalar ?q # st, r)"
    by (simp add: evalStep_div binary_def opDiv_def)
  from h have 2: "V a = ?q * V b + ?rem" by (intro tdiv_props) simp
  from h have 3: "\<bar>?rem\<bar> < \<bar>V b\<bar>" by (simp add: abs_mult abs_sgn_eq)
  have 4: "0 \<le> ?rem * V a"
  proof -
    have s: "sgn (V a) * V a = \<bar>V a\<bar>" by (simp add: abs_sgn mult.commute)
    have "?rem * V a = (sgn (V a) * V a) * (\<bar>V a\<bar> mod \<bar>V b\<bar>)" by (simp only: ac_simps)
    also have "\<dots> = \<bar>V a\<bar> * (\<bar>V a\<bar> mod \<bar>V b\<bar>)" by (simp only: s)
    finally have e: "?rem * V a = \<bar>V a\<bar> * (\<bar>V a\<bar> mod \<bar>V b\<bar>)" .
    from h have "0 \<le> \<bar>V a\<bar> mod \<bar>V b\<bar>" by simp
    then have "0 \<le> \<bar>V a\<bar> * (\<bar>V a\<bar> mod \<bar>V b\<bar>)" by (intro mult_nonneg_nonneg) simp_all
    then show ?thesis by (simp only: e)
  qed
  from 1 2 3 4 show "\<exists>q rem. evalStep sub ''/'' (b # a # st) r = Done (scalar q # st, r)
             \<and> V a = q * V b + rem \<and> \<bar>rem\<bar> < \<bar>V b\<bar> \<and> 0 \<le> rem * V a"
    by blast
next
  assume h: "V b \<noteq> 0 \<and> minInt < V a \<and> V a \<le> maxInt"
  let ?q = "sgn (V a) * sgn (V b) * (\<bar>V a\<bar> div \<bar>V b\<bar>)"
  from h have bnd: "minInt \<le> ?q \<and> ?q \<le> maxInt" by (intro tdiv_bound) simp_all
  then have q1: "goDiv (V a) (V b) = ?q" by (simp add: goDiv_def wrap64_id)
  from h have "minInt \<le> - V a \<and> - V a \<le> maxInt \<and> \<not> (- V a = minInt \<and> V b = - 1)"
    by (simp add: minInt_def maxInt_def)
  with h have "minInt \<le> sgn (- V a) * sgn (V b) * (\<bar>- V a\<bar> div \<bar>V b\<bar>)
       \<and> sgn (- V a) * sgn (V b) * (\<bar>- V a\<bar> div \<bar>V b\<bar>) \<le> maxInt"
    by (intro tdiv_bound) simp_all
  then have q2: "goDiv (- V a) (V b) = - ?q" by (simp add: goDiv_def wrap64_id sgn_minus)
  from h q1 q2 have "evalStep sub ''/'' (b # a # st) r = Done (scalar ?q # st, r)
             \<and> evalStep sub ''/'' (b # a\<lparr>V := - V a\<rparr> # st) r = Done (scalar (- ?q) # st, r)"
    by (simp add: evalStep_div binary_def opDiv_def)
  then show "\<exists>q. evalStep sub ''/'' (b # a # st) r = Done (scalar q # st, r)
             \<and> evalStep sub ''/'' (b # a\<lparr>V := - V a\<rparr> # st) r = Done (scalar (- q) # st, r)"
    by blast
next
  show "outValue (Roll n ''(0-7)/2'' vt g) = Some (- 3)" by (rule example_div)
qed

text \<open>The theorem at the operands \<open>-7\<close> and \<open>2\<close>.\<close>

theorem C10_division_witness:
  "(\<exists>q rem. evalStep (RollN 0) ''/'' [scalar 2, scalar (- 7)] (New None (fixedRand [])) = Done ([scalar q], New None (fixedRand []))
             \<and> - 7 = q * 2 + rem \<and> \<bar>rem\<bar> < (2::int) \<and> 0 \<le> rem * (- 7))
   \<and> (\<exists>q. evalStep (RollN 0) ''/'' [scalar 2, scalar (- 7)] (New None (fixedRand [])) = Done ([scalar q], New None (fixedRand []))
             \<and> evalStep (RollN 0) ''/'' [scalar 2, scalar 7] (New None (fixedRand [])) = Done ([scalar (- q)], New None (fixedRand [])))"
  using C10_division [of "scalar 2" "scalar (- 7)" "RollN 0" "[]" "New None (fixedRand [])" 0 None "fixedRand []"]
  by (simp add: scalar_def zeroValue_def minInt_def maxInt_def)

text \<open>
  With the dividend \<open>-2^63\<close>, written \<open>0-9223372036854775807-1\<close>, negating the dividend
  does not negate the quotient, and dividing by \<open>-1\<close> returns the dividend.
\<close>

theorem C10_counterexample:
  "outValue (Roll 0 ''(0-(0-9223372036854775807-1))/2'' None (fixedRand [])) = Some (- 4611686018427387904)
   \<and> outValue (Roll 0 ''0-((0-9223372036854775807-1)/2)'' None (fixedRand [])) = Some 4611686018427387904
   \<and> outValue (Roll 0 ''(0-9223372036854775807-1)/(0-1)'' None (fixedRand [])) = Some (- 9223372036854775808)"
  by code_simp

section \<open>Temp variables and assignment\<close>

lemma digitOf_in: "digitOf d \<in> set digitChars"
  by (simp add: digitOf_def digitNums_def digitChars_def)

lemma natDigits_chars: "set (natDigits n) \<subseteq> set digitChars"
proof (induction n rule: natDigits.induct)
  case (1 n)
  show ?case
  proof (cases "n < 10")
    case True
    then show ?thesis by (subst natDigits.simps) (simp add: digitOf_in)
  next
    case False
    with 1 show ?thesis by (subst natDigits.simps) (simp add: digitOf_in)
  qed
qed

lemma toUpperChar_digits: "list_all (\<lambda>c. toUpperChar c = c) (CHR ''-'' # digitChars)"
  by code_simp

lemma toUpperChar_digit: "c \<in> set digitChars \<or> c = CHR ''-'' \<Longrightarrow> toUpperChar c = c"
  using toUpperChar_digits by (auto simp only: list_all_iff set_simps)

lemma ascii_digits:
  "list_all isASCII (CHR ''-'' # CHR ''+'' # CHR ''t'' # digitChars)"
  by code_simp

lemma ascii_digit:
  "c \<in> set digitChars \<or> c = CHR ''-'' \<or> c = CHR ''+'' \<or> c = CHR ''t'' \<Longrightarrow> isASCII c"
  using ascii_digits by (auto simp only: list_all_iff set_simps)

lemma ToUpper_Itoa: "ToUpper (Itoa i) = Itoa i"
proof -
  have "\<forall>c\<in>set (Itoa i). c \<in> set digitChars \<or> c = CHR ''-''"
    using natDigits_chars by (auto simp: Itoa_def)
  moreover from this have "list_all isASCII (Itoa i)"
    unfolding list_all_iff by (blast intro: ascii_digit)
  ultimately show ?thesis
    unfolding ToUpper_def by (simp add: toUpperChar_digit map_idI)
qed

lemma toUpperChar_t: "toUpperChar CHR ''t'' = CHR ''T''"
  by code_simp

text \<open>The key of the mirror entry: \<open>T\<close> followed by the decimal index.\<close>

lemma ToUpper_tempKey: "ToUpper (tempKey idx) = CHR ''T'' # Itoa idx"
proof -
  have d: "\<forall>c\<in>set (Itoa i). c \<in> set digitChars \<or> c = CHR ''-''" for i
    using natDigits_chars by (auto simp: Itoa_def)
  then have a: "list_all isASCII (Itoa idx)"
    unfolding list_all_iff by (blast intro: ascii_digit)
  have t: "isASCII CHR ''t''" by (rule ascii_digit) simp
  from d have "map toUpperChar (Itoa idx) = Itoa idx"
    by (intro map_idI) (simp add: toUpperChar_digit)
  with a t show ?thesis
    by (simp add: tempKey_def ToUpper_def toUpperChar_t)
qed

lemma evalStep_assign: "evalStep sub ''='' st r = binary opAssign st r"
  by (simp add: tok_simps)

lemma example_assign:
  "outValue (Roll n ''$t=7+$t'' None g) = Some 14
   \<and> outTemp (Roll n ''$t=7+$t'' None g) 1 = Some 7
   \<and> outTable (Roll n ''$t=7+$t'' None g) ''T1'' = Some 7"
  by code_simp

text \<open>
  Claim C5. With a temp reference as left operand, \<open>=\<close> yields the right operand's scalar,
  stores it in the temp store at the reference's index and in the variable table under
  the key \<open>T\<close> followed by the index. Evaluating \<open>$t=7+$t\<close> with no table and no temp
  variables gives 14, and afterwards temp index 1 and the table's key \<open>T1\<close> hold 7, for
  every random source and nesting bound.
\<close>

theorem C5_assignment:
  "(IsTemp leftA \<longrightarrow>
      (\<exists>r'. evalStep sub ''='' (rightA # leftA # st) r = Done (scalar (V rightA) # st, r')
         \<and> temp r' (TempIndex leftA) = Some (V rightA)
         \<and> (\<exists>m. ValueTable r' = Some m
                \<and> m (CHR ''T'' # Itoa (TempIndex leftA)) = Some (V rightA))))
   \<and> outValue (Roll n ''$t=7+$t'' None g) = Some 14
   \<and> outTemp (Roll n ''$t=7+$t'' None g) 1 = Some 7
   \<and> outTable (Roll n ''$t=7+$t'' None g) ''T1'' = Some 7"
  using example_assign [of n g]
  by (simp add: evalStep_assign binary_def opAssign_def ToUpper_tempKey)

text \<open>The theorem at the assignment of 7 to temp index 1.\<close>

theorem C5_assignment_witness:
  "(\<exists>r'. evalStep (RollN 0) ''='' [scalar 7, zeroValue\<lparr>TempIndex := 1, IsTemp := True\<rparr>]
            (New None (fixedRand []))
          = Done ([scalar 7], r')
       \<and> temp r' 1 = Some 7 \<and> (\<exists>m. ValueTable r' = Some m \<and> m ''T1'' = Some 7))"
proof -
  have i: "Itoa 1 = ''1''" by code_simp
  show ?thesis
    using C5_assignment [of "zeroValue\<lparr>TempIndex := 1, IsTemp := True\<rparr>" "RollN 0" "scalar 7" "[]"
        "New None (fixedRand [])" 0 "fixedRand []"]
    by (simp add: scalar_def zeroValue_def i)
qed

section \<open>The operators \<open>min\<close> and \<open>max\<close>\<close>

lemma evalStep_min: "evalStep sub ''min'' st r = binary (opMinMax ''min'') st r"
  by (simp add: tok_simps)

lemma evalStep_max: "evalStep sub ''max'' st r = binary (opMinMax ''max'') st r"
  by (simp add: tok_simps)

text \<open>A scalar resolves to the one-element list of its value, an integer list to itself.\<close>

lemma resolve_plain:
  "\<not> MetaEnable v \<or> Meta v \<noteq> None
   \<Longrightarrow> resolveMetaValues sub v r = Done (if \<not> MetaEnable v then [V v] else metaList v, r)"
  by (auto simp: resolveMetaValues_def metaList_def)

lemma example_min:
  "outValue (Roll n ''3min5'' vt g) = Some 5 \<and> outMeta (Roll n ''3min5'' vt g) = Some [5]"
proof (cases vt)
  case None
  show ?thesis unfolding None by code_simp
next
  case (Some m)
  show ?thesis unfolding Some by code_simp
qed

text \<open>
  Claim C9, amended. For every left operand and every \<open>n > 0\<close>, \<open>min\<close> and \<open>max\<close> succeed
  with meta enabled. When the left operand is a scalar or carries an integer list, the
  meta list is the resolved operand with every element clamped (\<open>max\<close> to at most \<open>n\<close>,
  \<open>min\<close> to at least \<open>n\<close>), so it has the resolved operand's length; a scalar gives one
  element. \<open>3min5\<close> evaluates to 5 with meta \<open>[5]\<close>.
\<close>

theorem C9_minmax:
  "((tok = ''min'' \<or> tok = ''max'') \<and> 0 < V param \<longrightarrow>
      (\<exists>v. evalStep sub tok (param # left # st) r = Done (v # st, r) \<and> MetaEnable v))
   \<and> ((tok = ''min'' \<or> tok = ''max'') \<and> 0 < V param \<and> (\<not> MetaEnable left \<or> Meta left \<noteq> None) \<longrightarrow>
      (\<exists>v xs. evalStep sub tok (param # left # st) r = Done (v # st, r)
         \<and> resolveMetaValues sub left r = Done (xs, r)
         \<and> Meta v = Some (map (\<lambda>x. if tok = ''max'' then min x (V param) else max x (V param)) xs)
         \<and> length (metaList v) = length xs))
   \<and> outValue (Roll n ''3min5'' vt g) = Some 5
   \<and> outMeta (Roll n ''3min5'' vt g) = Some [5]"
proof (intro conjI impI)
  assume h: "(tok = ''min'' \<or> tok = ''max'') \<and> 0 < V param"
  then have "evalStep sub tok (param # left # st) r = binary (opMinMax tok) (param # left # st) r"
    by (auto simp: evalStep_min evalStep_max)
  with h show "\<exists>v. evalStep sub tok (param # left # st) r = Done (v # st, r) \<and> MetaEnable v"
    by (simp add: binary_def opMinMax_def Let_def metaValue_def zeroValue_def)
next
  assume h: "(tok = ''min'' \<or> tok = ''max'') \<and> 0 < V param \<and> (\<not> MetaEnable left \<or> Meta left \<noteq> None)"
  let ?xs = "if \<not> MetaEnable left then [V left] else metaList left"
  from h have e: "evalStep sub tok (param # left # st) r = binary (opMinMax tok) (param # left # st) r"
    by (auto simp: evalStep_min evalStep_max)
  from h have res: "resolveMetaValues sub left r = Done (?xs, r)"
    by (intro resolve_plain) simp
  have cl: "clampTo tok (V param) = (\<lambda>x. if tok = ''max'' then min x (V param) else max x (V param))"
    by (auto simp: clampTo_def fun_eq_iff)
  from h e have "evalStep sub tok (param # left # st) r
      = Done (metaValue (sum64 (map (clampTo tok (V param)) ?xs)) (map (clampTo tok (V param)) ?xs) True # st, r)"
    by (simp add: binary_def opMinMax_def Let_def)
  with res cl show "\<exists>v xs. evalStep sub tok (param # left # st) r = Done (v # st, r)
         \<and> resolveMetaValues sub left r = Done (xs, r)
         \<and> Meta v = Some (map (\<lambda>x. if tok = ''max'' then min x (V param) else max x (V param)) xs)
         \<and> length (metaList v) = length xs"
    by (simp add: metaValue_def metaList_def zeroValue_def)
next
  show "outValue (Roll n ''3min5'' vt g) = Some 5" using example_min by blast
next
  show "outMeta (Roll n ''3min5'' vt g) = Some [5]" using example_min by blast
qed

text \<open>The theorem at \<open>min\<close> with the scalar 3 and \<open>n = 5\<close>.\<close>

theorem C9_minmax_witness:
  "(\<exists>v. evalStep (RollN 0) ''min'' [scalar 5, scalar 3] (New None (fixedRand []))
           = Done ([v], New None (fixedRand [])) \<and> MetaEnable v)
   \<and> (\<exists>v xs. evalStep (RollN 0) ''min'' [scalar 5, scalar 3] (New None (fixedRand []))
           = Done ([v], New None (fixedRand []))
         \<and> resolveMetaValues (RollN 0) (scalar 3) (New None (fixedRand [])) = Done (xs, New None (fixedRand []))
         \<and> Meta v = Some (map (\<lambda>x. max x 5) xs)
         \<and> length (metaList v) = length xs)"
  using C9_minmax [of "''min''" "scalar 5" "RollN 0" "scalar 3" "[]" "New None (fixedRand [])" 0 None "fixedRand []"]
  by (simp add: scalar_def zeroValue_def)

text \<open>
  A tuple of sub-expressions resolves to two values, but \<open>max\<close> reads the integer list of
  its operand, which is nil: the result has an empty meta list and the value 0.
\<close>

theorem C9_counterexample:
  "outMeta (Roll 1 ''[1d1,2]max5'' None (fixedRand [])) = Some []
   \<and> outValue (Roll 1 ''[1d1,2]max5'' None (fixedRand [])) = Some 0
   \<and> outList (resolveMetaValues (RollN 1) (tupleValue ''[1d1,2]'') (New None (fixedRand [])))
       = Some [1, 2]"
  by code_simp

section \<open>The operators \<open>kh\<close>, \<open>kl\<close>, \<open>dh\<close> and \<open>dl\<close>\<close>

definition isSelect :: "string \<Rightarrow> bool" where
  "isSelect tok = (tok = ''kh'' \<or> tok = ''kl'' \<or> tok = ''dh'' \<or> tok = ''dl'')"

lemma evalStep_select:
  "tok = ''kh'' \<or> tok = ''kl'' \<or> tok = ''dh'' \<or> tok = ''dl''
   \<Longrightarrow> evalStep sub tok st r = binary (opSelect sub tok) st r"
  by (elim disjE) (simp_all add: tok_simps)

lemma select_kh:
  "xs \<noteq> [] \<Longrightarrow> selectFromMeta xs n ''kh''
     = (take (nat n) (rev (sort xs)), sum64 (take (nat n) (rev (sort xs))))"
  by (simp add: selectFromMeta_def)

lemma select_kl:
  "xs \<noteq> [] \<Longrightarrow> selectFromMeta xs n ''kl''
     = (take (nat n) (sort xs), sum64 (take (nat n) (sort xs)))"
  by (simp add: selectFromMeta_def)

lemma select_dh:
  "xs \<noteq> [] \<Longrightarrow> selectFromMeta xs n ''dh''
     = (drop (nat n) (rev (sort xs)), sum64 (drop (nat n) (rev (sort xs))))"
  by (simp add: selectFromMeta_def sum64_def)

lemma select_dl:
  "xs \<noteq> [] \<Longrightarrow> selectFromMeta xs n ''dl''
     = (drop (nat n) (sort xs), sum64 (drop (nat n) (sort xs)))"
  by (simp add: selectFromMeta_def sum64_def)

text \<open>
  What \<open>selectFromMeta\<close> returns for a non-empty list: a prefix or a suffix of the sorted
  permutation of the list, and its sum.
\<close>

lemma selectFromMeta_spec:
  assumes "tok = ''kh'' \<or> tok = ''kl'' \<or> tok = ''dh'' \<or> tok = ''dl''" and "xs \<noteq> []"
  shows "\<exists>ys. mset ys = mset xs
           \<and> (if tok = ''kh'' \<or> tok = ''dh'' then sorted (rev ys) else sorted ys)
           \<and> fst (selectFromMeta xs n tok)
               = (if tok = ''kh'' \<or> tok = ''kl'' then take (nat n) ys else drop (nat n) ys)
           \<and> snd (selectFromMeta xs n tok) = sum64 (fst (selectFromMeta xs n tok))"
  using assms(1)
proof (elim disjE)
  assume "tok = ''kh''"
  with assms(2) show ?thesis
    by (intro exI [of _ "rev (sort xs)"]) (simp add: select_kh)
next
  assume "tok = ''kl''"
  with assms(2) show ?thesis
    by (intro exI [of _ "sort xs"]) (simp add: select_kl)
next
  assume "tok = ''dh''"
  with assms(2) show ?thesis
    by (intro exI [of _ "rev (sort xs)"]) (simp add: select_dh)
next
  assume "tok = ''dl''"
  with assms(2) show ?thesis
    by (intro exI [of _ "sort xs"]) (simp add: select_dl)
qed

lemma example_kh:
  "outValue (Roll n ''5kh3'' vt g) = Some 5 \<and> outMeta (Roll n ''5kh3'' vt g) = Some [5]"
proof (cases vt)
  case None
  show ?thesis unfolding None by code_simp
next
  case (Some m)
  show ?thesis unfolding Some by code_simp
qed

text \<open>
  Claim C6, amended. Let the left operand resolve to a non-empty list \<open>xs\<close> and let
  \<open>n > 0\<close>. Then \<open>kh\<close> and \<open>dh\<close> work on the descending, \<open>kl\<close> and \<open>dl\<close> on the ascending
  sorted permutation \<open>ys\<close> of \<open>xs\<close>; \<open>kh\<close> and \<open>kl\<close> keep its first \<open>n\<close> elements (all of
  them when \<open>n\<close> exceeds the length), \<open>dh\<close> and \<open>dl\<close> drop them (nothing is left when
  \<open>n\<close> reaches the length). The meta list is the kept list. The value is the sum of the
  kept elements in 64 bits: a number of the 64-bit range that differs from the sum by a
  multiple of \<open>2^64\<close>, so the sum itself whenever the sum is in that range. A scalar
  operand resolves to the one-element list of its value; \<open>n \<le> 0\<close> is the error for the
  right operand and an empty resolved operand the error for the left one. \<open>5kh3\<close>
  evaluates to 5 with meta \<open>[5]\<close>.
\<close>

theorem C6_keep_drop:
  "(isSelect tok \<and> 0 < V param \<and> resolveMetaValues sub left r = Done (xs, r') \<and> xs \<noteq> [] \<longrightarrow>
      (\<exists>v ys. evalStep sub tok (param # left # st) r = Done (v # st, r')
         \<and> mset ys = mset xs
         \<and> (if tok = ''kh'' \<or> tok = ''dh'' then sorted (rev ys) else sorted ys)
         \<and> Meta v = Some (if tok = ''kh'' \<or> tok = ''kl'' then take (nat (V param)) ys
                            else drop (nat (V param)) ys)
         \<and> minInt \<le> V v \<and> V v \<le> maxInt \<and> (V v - sum_list (metaList v)) mod 2 ^ 64 = 0
         \<and> (minInt \<le> sum_list (metaList v) \<and> sum_list (metaList v) \<le> maxInt
              \<longrightarrow> V v = sum_list (metaList v))
         \<and> MetaEnable v = (metaList v \<noteq> [])))
   \<and> (\<not> MetaEnable left \<longrightarrow> resolveMetaValues sub left r = Done ([V left], r))
   \<and> (isSelect tok \<and> V param \<le> 0 \<longrightarrow>
        evalStep sub tok (param # left # st) r = Fail ErrNodeRightValInvalid)
   \<and> (isSelect tok \<and> 0 < V param \<and> resolveMetaValues sub left r = Done ([], r') \<longrightarrow>
        evalStep sub tok (param # left # st) r = Fail ErrNodeLeftValInvalid)
   \<and> outValue (Roll n ''5kh3'' vt g) = Some 5
   \<and> outMeta (Roll n ''5kh3'' vt g) = Some [5]"
proof (intro conjI impI)
  assume h: "isSelect tok \<and> 0 < V param \<and> resolveMetaValues sub left r = Done (xs, r') \<and> xs \<noteq> []"
  then have sel: "tok = ''kh'' \<or> tok = ''kl'' \<or> tok = ''dh'' \<or> tok = ''dl''"
    by (simp add: isSelect_def)
  from selectFromMeta_spec [OF sel, of xs "V param"] h
  obtain ys where ys: "mset ys = mset xs"
      "if tok = ''kh'' \<or> tok = ''dh'' then sorted (rev ys) else sorted ys"
      "fst (selectFromMeta xs (V param) tok)
         = (if tok = ''kh'' \<or> tok = ''kl'' then take (nat (V param)) ys else drop (nat (V param)) ys)"
      "snd (selectFromMeta xs (V param) tok) = sum64 (fst (selectFromMeta xs (V param) tok))"
    by blast
  from h have "evalStep sub tok (param # left # st) r
      = Done (metaValue (snd (selectFromMeta xs (V param) tok)) (fst (selectFromMeta xs (V param) tok))
                (fst (selectFromMeta xs (V param) tok) \<noteq> []) # st, r')"
    by (simp add: evalStep_select [OF sel] binary_def opSelect_def)
  with ys sum64_spec [of "fst (selectFromMeta xs (V param) tok)"]
  show "\<exists>v ys. evalStep sub tok (param # left # st) r = Done (v # st, r')
         \<and> mset ys = mset xs
         \<and> (if tok = ''kh'' \<or> tok = ''dh'' then sorted (rev ys) else sorted ys)
         \<and> Meta v = Some (if tok = ''kh'' \<or> tok = ''kl'' then take (nat (V param)) ys
                            else drop (nat (V param)) ys)
         \<and> minInt \<le> V v \<and> V v \<le> maxInt \<and> (V v - sum_list (metaList v)) mod 2 ^ 64 = 0
         \<and> (minInt \<le> sum_list (metaList v) \<and> sum_list (metaList v) \<le> maxInt
              \<longrightarrow> V v = sum_list (metaList v))
         \<and> MetaEnable v = (metaList v \<noteq> [])"
    by (intro exI [of _ "metaValue (snd (selectFromMeta xs (V param) tok))
            (fst (selectFromMeta xs (V param) tok)) (fst (selectFromMeta xs (V param) tok) \<noteq> [])"]
          exI [of _ ys])
       (simp add: metaValue_def metaList_def zeroValue_def)
next
  assume "\<not> MetaEnable left"
  then show "resolveMetaValues sub left r = Done ([V left], r)"
    by (simp add: resolveMetaValues_def)
next
  assume h: "isSelect tok \<and> V param \<le> 0"
  then have sel: "tok = ''kh'' \<or> tok = ''kl'' \<or> tok = ''dh'' \<or> tok = ''dl''"
    by (simp add: isSelect_def)
  from h show "evalStep sub tok (param # left # st) r = Fail ErrNodeRightValInvalid"
    by (simp add: evalStep_select [OF sel] binary_def opSelect_def)
next
  assume h: "isSelect tok \<and> 0 < V param \<and> resolveMetaValues sub left r = Done ([], r')"
  then have sel: "tok = ''kh'' \<or> tok = ''kl'' \<or> tok = ''dh'' \<or> tok = ''dl''"
    by (simp add: isSelect_def)
  from h show "evalStep sub tok (param # left # st) r = Fail ErrNodeLeftValInvalid"
    by (simp add: evalStep_select [OF sel] binary_def opSelect_def)
next
  show "outValue (Roll n ''5kh3'' vt g) = Some 5" using example_kh by blast
next
  show "outMeta (Roll n ''5kh3'' vt g) = Some [5]" using example_kh by blast
qed

text \<open>
  The theorem at \<open>kh\<close> on \<open>[4, 2, 6]\<close> with \<open>n = 2\<close>, at the scalar 5, at \<open>n = 0\<close> and at
  an empty list.
\<close>

theorem C6_keep_drop_witness:
  "(\<exists>v ys. evalStep (RollN 0) ''kh'' [scalar 2, metaValue 0 [4, 2, 6] True] (New None (fixedRand []))
        = Done ([v], New None (fixedRand []))
      \<and> mset ys = mset [4, 2, 6] \<and> sorted (rev ys) \<and> Meta v = Some (take 2 ys)
      \<and> V v = 10 \<and> V v = sum_list (metaList v) \<and> MetaEnable v = (metaList v \<noteq> []))
   \<and> resolveMetaValues (RollN 0) (scalar 5) (New None (fixedRand []))
        = Done ([5], New None (fixedRand []))
   \<and> evalStep (RollN 0) ''dl'' [scalar 0, scalar 5] (New None (fixedRand []))
        = Fail ErrNodeRightValInvalid
   \<and> evalStep (RollN 0) ''dh'' [scalar 1, metaValue 0 [] True] (New None (fixedRand []))
        = Fail ErrNodeLeftValInvalid"
proof -
  let ?r = "New None (fixedRand [])"
  have r1: "resolveMetaValues (RollN 0) (metaValue 0 [4, 2, 6] True) ?r = Done ([4, 2, 6], ?r)"
    by (simp add: resolveMetaValues_def metaValue_def zeroValue_def)
  have r2: "resolveMetaValues (RollN 0) (metaValue 0 [] True) ?r = Done ([], ?r)"
    by (simp add: resolveMetaValues_def metaValue_def zeroValue_def)
  have e: "evalStep (RollN 0) ''kh'' [scalar 2, metaValue 0 [4, 2, 6] True] ?r
      = Done ([metaValue 10 [6, 4] True], ?r)"
    by (simp add: evalStep_kh binary_def opSelect_def r1 selectFromMeta_def sum64_def wrap64_def
        scalar_def zeroValue_def)
  have a: "\<exists>v ys. evalStep (RollN 0) ''kh'' [scalar 2, metaValue 0 [4, 2, 6] True] ?r = Done ([v], ?r)
      \<and> mset ys = mset [4, 2, 6] \<and> sorted (rev ys) \<and> Meta v = Some (take 2 ys)
      \<and> V v = 10 \<and> V v = sum_list (metaList v) \<and> MetaEnable v = (metaList v \<noteq> [])"
    using C6_keep_drop [of "''kh''" "scalar 2" "RollN 0" "metaValue 0 [4, 2, 6] True" ?r
        "[4, 2, 6]" ?r "[]" 0 None "fixedRand []"] r1 e
    by (auto simp add: isSelect_def scalar_def zeroValue_def metaValue_def metaList_def)
  have b: "resolveMetaValues (RollN 0) (scalar 5) ?r = Done ([5], ?r)"
    using C6_keep_drop [of "''kh''" "scalar 2" "RollN 0" "scalar 5" ?r
        "[5]" ?r "[]" 0 None "fixedRand []"]
    by (simp add: scalar_def zeroValue_def)
  have c: "evalStep (RollN 0) ''dl'' [scalar 0, scalar 5] ?r = Fail ErrNodeRightValInvalid"
    using C6_keep_drop [of "''dl''" "scalar 0" "RollN 0" "scalar 5" ?r
        "[5]" ?r "[]" 0 None "fixedRand []"]
    by (simp add: isSelect_def scalar_def zeroValue_def)
  have d: "evalStep (RollN 0) ''dh'' [scalar 1, metaValue 0 [] True] ?r = Fail ErrNodeLeftValInvalid"
    using C6_keep_drop [of "''dh''" "scalar 1" "RollN 0" "metaValue 0 [] True" ?r
        "[]" ?r "[]" 0 None "fixedRand []"] r2
    by (simp add: isSelect_def scalar_def zeroValue_def)
  from a b c d show ?thesis by blast
qed

text \<open>
  With the elements \<open>2^63 - 1\<close> and 1 the sum of the kept elements is \<open>2^63\<close>, and the
  value is \<open>-2^63\<close>.
\<close>

theorem C6_counterexample:
  "outValue (Roll 0 ''[9223372036854775807,1]kh2'' None (fixedRand []))
     = Some (- 9223372036854775808)
   \<and> outMeta (Roll 0 ''[9223372036854775807,1]kh2'' None (fixedRand []))
     = Some [9223372036854775807, 1]
   \<and> map_option sum_list (outMeta (Roll 0 ''[9223372036854775807,1]kh2'' None (fixedRand [])))
     = Some 9223372036854775808"
  by code_simp

section \<open>Chain operators\<close>

lemma roundA_next:
  "fst (snd (snd (roundA k m threshold g meta nextCount tot))) \<le> nextCount + int k"
proof (induction k arbitrary: g meta nextCount tot)
  case 0
  show ?case by simp
next
  case (Suc k)
  let ?x = "fst (Intn m g) + 1"
  have "fst (snd (snd (roundA k m threshold (snd (Intn m g)) (meta @ [?x])
            (if ?x \<ge> threshold then nextCount + 1 else nextCount)
            (if ?x \<ge> threshold then tot + 1 else tot))))
        \<le> (if ?x \<ge> threshold then nextCount + 1 else nextCount) + int k"
    by (rule Suc.IH)
  then show ?case by (simp split: if_splits)
qed

lemma roundC_next:
  "fst (snd (snd (roundC k m threshold g meta nextC maxv))) \<le> nextC + int k"
proof (induction k arbitrary: g meta nextC maxv)
  case 0
  show ?case by simp
next
  case (Suc k)
  let ?x = "fst (Intn m g) + 1"
  have "fst (snd (snd (roundC k m threshold (snd (Intn m g)) (meta @ [?x])
            (if ?x \<ge> threshold then nextC + 1 else nextC)
            (if ?x > maxv then ?x else maxv))))
        \<le> (if ?x \<ge> threshold then nextC + 1 else nextC) + int k"
    by (rule Suc.IH)
  then show ?case by (simp split: if_splits)
qed

text \<open>
  The outer loop stops after the first round that takes the list beyond 10000 rolls, and
  a round is never longer than the one before: the list stays within 20000 rolls.
\<close>

lemma chainA_length:
  "length meta \<le> 10000 \<Longrightarrow> nextCount \<le> 10000
   \<Longrightarrow> length (fst (snd (chainA m threshold nextCount g meta tot))) \<le> 20000"
proof (induction m threshold nextCount g meta tot rule: chainA.induct)
  case (1 m threshold nextCount g meta tot)
  show ?case
  proof (cases "nextCount > 0")
    case False
    with 1 show ?thesis by (subst chainA.simps) simp
  next
    case True
    let ?rd = "roundA (nat nextCount) m threshold g meta 0 tot"
    have len: "length (fst (snd ?rd)) = length meta + nat nextCount" by (rule roundA_length)
    have nxt: "fst (snd (snd ?rd)) \<le> 0 + int (nat nextCount)" by (rule roundA_next)
    show ?thesis
    proof (cases "length (fst (snd ?rd)) > 10000")
      case True
      with \<open>nextCount > 0\<close> len 1(2,3) show ?thesis
        by (subst chainA.simps) (simp add: Let_def)
    next
      case False
      with \<open>nextCount > 0\<close> nxt 1(3)
      have "length (fst (snd (chainA m threshold (fst (snd (snd ?rd))) (fst ?rd) (fst (snd ?rd))
                (snd (snd (snd ?rd)))))) \<le> 20000"
        by (intro "1.IH" [OF True refl]) simp_all
      with \<open>nextCount > 0\<close> False show ?thesis
        by (subst chainA.simps) (simp add: Let_def)
    qed
  qed
qed

lemma chainC_length:
  "length meta \<le> 10000 \<Longrightarrow> nextC \<le> 10000
   \<Longrightarrow> length (fst (snd (chainC m threshold nextC g meta tot))) \<le> 20000"
proof (induction m threshold nextC g meta tot rule: chainC.induct)
  case (1 m threshold nextC g meta tot)
  show ?case
  proof (cases "nextC > 0")
    case False
    with 1 show ?thesis by (subst chainC.simps) simp
  next
    case True
    let ?rd = "roundC (nat nextC) m threshold g meta 0 0"
    have len: "length (fst (snd ?rd)) = length meta + nat nextC" by (rule roundC_length)
    have nxt: "fst (snd (snd ?rd)) \<le> 0 + int (nat nextC)" by (rule roundC_next)
    show ?thesis
    proof (cases "length (fst (snd ?rd)) > 10000")
      case True
      with \<open>nextC > 0\<close> len 1(2,3) show ?thesis
        by (subst chainC.simps) (simp add: Let_def)
    next
      case False
      with \<open>nextC > 0\<close> nxt 1(3)
      have "length (fst (snd (chainC m threshold (fst (snd (snd ?rd))) (fst ?rd) (fst (snd ?rd))
                (tot + snd (snd (snd ?rd)))))) \<le> 20000"
        by (intro "1.IH" [OF True refl]) simp_all
      with \<open>nextC > 0\<close> False show ?thesis
        by (subst chainC.simps) (simp add: Let_def)
    qed
  qed
qed


lemma Intn_range: "0 < m \<Longrightarrow> 0 \<le> fst (Intn m g) \<and> fst (Intn m g) < m"
  by (simp add: Intn_def)

text \<open>With threshold 1 every roll reaches the threshold, so the next round is as long.\<close>

lemma roundA_all:
  "threshold \<le> 1 \<Longrightarrow> 0 < m
   \<Longrightarrow> fst (snd (snd (roundA k m threshold g meta nextCount tot))) = nextCount + int k"
proof (induction k arbitrary: g meta nextCount tot)
  case 0
  show ?case by simp
next
  case (Suc k)
  from Suc.prems Intn_range [of m g] have "fst (Intn m g) + 1 \<ge> threshold" by simp
  with Suc show ?case by simp
qed

lemma chainA_overshoot:
  assumes "0 < m"
  shows "length (fst (snd (chainA m 1 10000 g [] tot))) = 20000"
proof -
  let ?rd = "roundA 10000 m 1 g [] 0 tot"
  let ?rd2 = "roundA 10000 m 1 (fst ?rd) (fst (snd ?rd)) 0 (snd (snd (snd ?rd)))"
  have l1: "length (fst (snd ?rd)) = 10000" using roundA_length [of 10000 m 1 g "[]" 0 tot] by simp
  have n1: "fst (snd (snd ?rd)) = 10000" using roundA_all [of 1 m 10000 g "[]" 0 tot] assms by simp
  have l2: "length (fst (snd ?rd2)) = 20000"
    using roundA_length [of 10000 m 1 "fst ?rd" "fst (snd ?rd)" 0 "snd (snd (snd ?rd))"] l1 by simp
  have "chainA m 1 10000 g [] tot
      = chainA m 1 10000 (fst ?rd) (fst (snd ?rd)) (snd (snd (snd ?rd)))"
    using l1 n1 by (subst chainA.simps) (simp add: Let_def)
  also have "\<dots> = (fst ?rd2, fst (snd ?rd2), snd (snd (snd ?rd2)))"
    using l2 by (subst chainA.simps) (simp add: Let_def)
  finally show ?thesis using l2 by simp
qed

text \<open>An expression without a foldable group and without a ternary goes to the postfix evaluator.\<close>

lemma Roll_straight:
  assumes "tokenize (replaceVars (New vt g) (ToLower e)) = Some toks"
    and "findSite toks [0..<length toks] = NoSite"
    and "trimOuter toks = toks"
    and "findQuestion toks 0 0 = NoTern"
    and "toRPN (preProcessTokens toks 100) = Some rpn"
  shows "Roll n e vt g = evalRPN (RollN n) rpn (New vt g)"
  using assms by (simp add: Roll_def rollValue_def evalTokens.simps [of _ toks] New_def)

lemmas chain_toks = evalStep_def evalOp_def Atoi_def isDigit_def digitChars_def dquote_def binary_def
  ternary_def

lemma evalStep_a:
  "evalStep sub ''a'' (rightV # leftV # st) r = chainOp True leftV rightV 10 False st r"
  by (simp add: chain_toks)

lemma evalStep_c:
  "evalStep sub ''c'' (rightV # leftV # st) r = chainOp False leftV rightV 10 False st r"
  by (simp add: chain_toks)

lemma evalStep_a_m:
  "evalStep sub ''a_m'' (facesV # rightV # leftV # st) r
     = chainOp True leftV rightV (V facesV) True st r"
  by (simp add: chain_toks)

lemma evalStep_c_m:
  "evalStep sub ''c_m'' (facesV # rightV # leftV # st) r
     = chainOp False leftV rightV (V facesV) True st r"
  by (simp add: chain_toks)

lemma chainOp_bound:
  assumes "0 \<le> V leftV" "V leftV \<le> 10000" "0 < V rightV" "V rightV \<le> 10000"
    and "checkFaces \<longrightarrow> 0 < m \<and> m \<le> 10000"
  shows "\<exists>v r'. chainOp additive leftV rightV m checkFaces st r = Done (v # st, r')
           \<and> length (metaList v) \<le> 20000"
proof -
  have a: "length (fst (snd (chainA m (V rightV) (V leftV) (rng r) [] 0))) \<le> 20000"
    using assms(2) by (intro chainA_length) simp_all
  have c: "length (fst (snd (chainC m (V rightV) (V leftV) (rng r) [] 0))) \<le> 20000"
    using assms(2) by (intro chainC_length) simp_all
  from assms a c show ?thesis
    by (auto simp: chainOp_def Let_def metaValue_def metaList_def zeroValue_def)
qed

text \<open>
  Claim C4, amended. For operands in the domain (times in \<open>[0,10000]\<close>, threshold in
  \<open>(0,10000]\<close>, and faces in \<open>(0,10000]\<close> for \<open>a_m\<close> and \<open>c_m\<close>), every chain operator
  returns a result, for every random source, and the meta list has at most 20000 rolls.
\<close>

theorem C4_chain_bound:
  "(0 \<le> V leftV \<and> V leftV \<le> 10000 \<and> 0 < V rightV \<and> V rightV \<le> 10000
      \<and> (tok = ''a'' \<or> tok = ''c'') \<longrightarrow>
      (\<exists>v r'. evalStep sub tok (rightV # leftV # st) r = Done (v # st, r')
         \<and> length (metaList v) \<le> 20000))
   \<and> (0 \<le> V leftV \<and> V leftV \<le> 10000 \<and> 0 < V rightV \<and> V rightV \<le> 10000
      \<and> 0 < V facesV \<and> V facesV \<le> 10000 \<and> (tok = ''a_m'' \<or> tok = ''c_m'') \<longrightarrow>
      (\<exists>v r'. evalStep sub tok (facesV # rightV # leftV # st) r = Done (v # st, r')
         \<and> length (metaList v) \<le> 20000))"
proof (intro conjI impI)
  assume h: "0 \<le> V leftV \<and> V leftV \<le> 10000 \<and> 0 < V rightV \<and> V rightV \<le> 10000
      \<and> (tok = ''a'' \<or> tok = ''c'')"
  then have "tok = ''a'' \<or> tok = ''c''" by simp
  then show "\<exists>v r'. evalStep sub tok (rightV # leftV # st) r = Done (v # st, r')
         \<and> length (metaList v) \<le> 20000"
  proof
    assume "tok = ''a''"
    with h chainOp_bound [of leftV rightV False 10 True st r] show ?thesis
      by (simp add: evalStep_a)
  next
    assume "tok = ''c''"
    with h chainOp_bound [of leftV rightV False 10 False st r] show ?thesis
      by (simp add: evalStep_c)
  qed
next
  assume h: "0 \<le> V leftV \<and> V leftV \<le> 10000 \<and> 0 < V rightV \<and> V rightV \<le> 10000
      \<and> 0 < V facesV \<and> V facesV \<le> 10000 \<and> (tok = ''a_m'' \<or> tok = ''c_m'')"
  then have "tok = ''a_m'' \<or> tok = ''c_m''" by simp
  then show "\<exists>v r'. evalStep sub tok (facesV # rightV # leftV # st) r = Done (v # st, r')
         \<and> length (metaList v) \<le> 20000"
  proof
    assume "tok = ''a_m''"
    with h chainOp_bound [of leftV rightV True "V facesV" True st r] show ?thesis
      by (simp add: evalStep_a_m)
  next
    assume "tok = ''c_m''"
    with h chainOp_bound [of leftV rightV True "V facesV" False st r] show ?thesis
      by (simp add: evalStep_c_m)
  qed
qed


text \<open>The theorem at \<open>3a5\<close> and at \<open>3c5m6\<close>.\<close>

theorem C4_chain_bound_witness:
  "(\<exists>v r'. evalStep (RollN 0) ''a'' [scalar 5, scalar 3] (New None (fixedRand [])) = Done ([v], r')
         \<and> length (metaList v) \<le> 20000)
   \<and> (\<exists>v r'. evalStep (RollN 0) ''c_m'' [scalar 6, scalar 5, scalar 3] (New None (fixedRand []))
           = Done ([v], r')
         \<and> length (metaList v) \<le> 20000)"
  using C4_chain_bound [of "scalar 3" "scalar 5" "''a''" "RollN 0" "[]" "New None (fixedRand [])" "scalar 6"]
    C4_chain_bound [of "scalar 3" "scalar 5" "''c_m''" "RollN 0" "[]" "New None (fixedRand [])" "scalar 6"]
  by (simp add: scalar_def zeroValue_def)

text \<open>
  \<open>10000a1\<close> rolls 20000 dice: after the first round the list has 10000 rolls, which is
  not more than 10000, and every roll reaches the threshold 1.
\<close>

theorem C4_counterexample:
  "map_option length (outMeta (Roll 0 ''10000a1'' None (fixedRand []))) = Some 20000"
proof -
  let ?g = "fixedRand []"
  have t: "tokenize (replaceVars (New None ?g) (ToLower ''10000a1'')) = Some [''10000'', ''a'', ''1'']"
    by code_simp
  have f: "findSite [''10000'', ''a'', ''1''] [0..<length [''10000'', ''a'', ''1'']] = NoSite"
    by code_simp
  have o: "trimOuter [''10000'', ''a'', ''1''] = [''10000'', ''a'', ''1'']"
    by code_simp
  have q: "findQuestion [''10000'', ''a'', ''1''] 0 0 = NoTern"
    by code_simp
  have p: "toRPN (preProcessTokens [''10000'', ''a'', ''1''] 100) = Some [''10000'', ''1'', ''a'']"
    by code_simp
  have r: "Roll 0 ''10000a1'' None ?g = evalRPN (RollN 0) [''10000'', ''1'', ''a''] (New None ?g)"
    by (rule Roll_straight [OF t f o q p])
  have a1: "Atoi ''10000'' = Some 10000" by code_simp
  have a2: "Atoi ''1'' = Some 1" by code_simp
  have len: "length (fst (snd (chainA 10 1 10000 ?g [] 0))) = 20000"
    by (rule chainA_overshoot) simp
  then have ne: "fst (snd (chainA 10 1 10000 ?g [] 0)) \<noteq> []" by auto
  have "evalRPN (RollN 0) [''10000'', ''1'', ''a''] (New None ?g)
      = Done (metaValue (snd (snd (chainA 10 1 10000 ?g [] 0))) (fst (snd (chainA 10 1 10000 ?g [] 0))) True,
              (New None ?g)\<lparr>rng := fst (chainA 10 1 10000 ?g [] 0)\<rparr>)"
    using ne
    by (simp add: evalRPN_def evalStep_a chainOp_def scalar_def zeroValue_def New_def Let_def
        evalStep_def [of _ "''10000''"] evalStep_def [of _ "''1''"] a1 a2)
  with r len show ?thesis
    by (simp add: outMeta_def metaValue_def metaList_def zeroValue_def)
qed

section \<open>Percentile operators\<close>

lemma rollMany_range:
  "0 < n \<Longrightarrow> \<forall>x\<in>set (fst (rollMany k n off g)). off \<le> x \<and> x < n + off"
proof (induction k arbitrary: g)
  case 0
  show ?case by simp
next
  case (Suc k)
  from Suc.prems Intn_range [of n g] Suc.IH [OF Suc.prems, of "snd (Intn n g)"]
  show ?case by simp
qed

lemma pick_fold_in:
  "foldl (\<lambda>m v. if bonus then (if v < m then v else m) else (if v > m then v else m)) a xs
     \<in> insert a (set xs)"
proof (induction xs arbitrary: a)
  case Nil
  show ?case by simp
next
  case (Cons x xs)
  let ?a' = "if bonus then (if x < a then x else a) else (if x > a then x else a)"
  from Cons.IH [of ?a'] show ?case by (auto split: if_splits)
qed

lemma pickTens_in: "rolls \<noteq> [] \<Longrightarrow> pickTens bonus rolls \<in> set rolls"
  using pick_fold_in [of bonus "hd rolls" "tl rolls"]
  by (cases rolls) (auto simp: pickTens_def)

lemma evalStep_b:
  "evalStep sub ''b'' (paramB # leftB # st) r = percentileOp True leftB paramB st r"
  by (simp add: chain_toks)

lemma evalStep_p:
  "evalStep sub ''p'' (paramP # leftP # st) r = percentileOp False leftP paramP st r"
  by (simp add: chain_toks)

text \<open>
  For operands in the domain, \<open>b\<close> and \<open>p\<close> return a value from 0 to 100, and 100 when
  the two digits first rolled are 0.
\<close>

lemma percentile_range:
  assumes "0 \<le> V paramB" "V paramB \<le> 10000" "V leftB \<le> 10000"
  shows "\<exists>v r'. percentileOp bonus leftB paramB st r = Done (v # st, r')
           \<and> 0 \<le> V v \<and> V v \<le> 100
           \<and> (fst (Intn 10 (rng r)) = 0 \<and> fst (Intn 10 (snd (Intn 10 (rng r)))) = 0 \<longrightarrow> V v = 100)"
proof -
  let ?tens = "fst (Intn 10 (rng r))"
  let ?g1 = "snd (Intn 10 (rng r))"
  let ?units = "fst (Intn 10 ?g1)"
  let ?g2 = "snd (Intn 10 ?g1)"
  let ?rolls = "fst (rollMany (nat (V paramB)) 10 0 ?g2)"
  have t: "0 \<le> ?tens \<and> ?tens < 10" by (rule Intn_range) simp
  have u: "0 \<le> ?units \<and> ?units < 10" by (rule Intn_range) simp
  have rs: "\<forall>x\<in>set ?rolls. 0 \<le> x \<and> x < 10"
    using rollMany_range [of 10 "nat (V paramB)" 0 ?g2] by simp
  have pk: "?rolls \<noteq> [] \<longrightarrow> 0 \<le> pickTens bonus ?rolls \<and> pickTens bonus ?rolls < 10"
    using rs pickTens_in [of ?rolls bonus] by blast
  from assms t u pk show ?thesis
    by (auto simp: percentileOp_def Let_def metaValue_def zeroValue_def)
qed

lemma percentile_eval:
  assumes r: "Roll n e vt g = evalRPN (RollN n) [''1'', ''3'', op] (New vt g)"
    and st: "\<And>st r. evalStep (RollN n) op (scalar 3 # scalar 1 # st) r
               = percentileOp bonus (scalar 1) (scalar 3) st r"
  shows "\<exists>v. outValue (Roll n e vt g) = Some v \<and> 0 \<le> v \<and> v \<le> 100
           \<and> (fst (Intn 10 g) = 0 \<and> fst (Intn 10 (snd (Intn 10 g))) = 0 \<longrightarrow> v = 100)"
proof -
  have a1: "Atoi ''1'' = Some 1" by code_simp
  have a3: "Atoi ''3'' = Some 3" by code_simp
  have ev: "evalRPN (RollN n) [''1'', ''3'', op] (New vt g)
      = (case percentileOp bonus (scalar 1) (scalar 3) [] (New vt g) of
           Diverge \<Rightarrow> Diverge | Fail err \<Rightarrow> Fail err
         | Done (st, r') \<Rightarrow> if length st \<noteq> 1 then Fail ErrUnknownGenerate else Done (hd st, r'))"
    by (simp add: evalRPN_def st evalStep_def [of _ "''1''"] evalStep_def [of _ "''3''"] a1 a3
        split: outcome.splits)
  from percentile_range [of "scalar 3" "scalar 1" bonus "[]" "New vt g"]
  obtain v r' where "percentileOp bonus (scalar 1) (scalar 3) [] (New vt g) = Done ([v], r')"
    and "0 \<le> V v" and "V v \<le> 100"
    and "fst (Intn 10 g) = 0 \<and> fst (Intn 10 (snd (Intn 10 g))) = 0 \<longrightarrow> V v = 100"
    by (auto simp: scalar_def zeroValue_def New_def)
  with r ev show ?thesis by (simp add: outValue_def)
qed

lemma tokens_b: "tokenize (replaceVars (New vt g) (ToLower ''1b3'')) = Some [''1'', ''b'', ''3'']"
proof (cases vt)
  case None
  show ?thesis unfolding None by code_simp
next
  case (Some m)
  show ?thesis unfolding Some by code_simp
qed

lemma tokens_p: "tokenize (replaceVars (New vt g) (ToLower ''1p3'')) = Some [''1'', ''p'', ''3'']"
proof (cases vt)
  case None
  show ?thesis unfolding None by code_simp
next
  case (Some m)
  show ?thesis unfolding Some by code_simp
qed

text \<open>
  What holds for every random source: \<open>1b3\<close> and \<open>1p3\<close> succeed with a value from 0 to
  100, and the value is 100 when the tens digit and the units digit first rolled are 0.
\<close>

lemma percentile_roll_b:
  "\<exists>v. outValue (Roll n ''1b3'' vt g) = Some v \<and> 0 \<le> v \<and> v \<le> 100
           \<and> (fst (Intn 10 g) = 0 \<and> fst (Intn 10 (snd (Intn 10 g))) = 0 \<longrightarrow> v = 100)"
proof (rule percentile_eval)
  have f: "findSite [''1'', ''b'', ''3''] [0..<length [''1'', ''b'', ''3'']] = NoSite" by code_simp
  have o: "trimOuter [''1'', ''b'', ''3''] = [''1'', ''b'', ''3'']" by code_simp
  have q: "findQuestion [''1'', ''b'', ''3''] 0 0 = NoTern" by code_simp
  have p: "toRPN (preProcessTokens [''1'', ''b'', ''3''] 100) = Some [''1'', ''3'', ''b'']" by code_simp
  show "Roll n ''1b3'' vt g = evalRPN (RollN n) [''1'', ''3'', ''b''] (New vt g)"
    by (rule Roll_straight [OF tokens_b f o q p])
  show "\<And>st r. evalStep (RollN n) ''b'' (scalar 3 # scalar 1 # st) r
               = percentileOp True (scalar 1) (scalar 3) st r"
    by (rule evalStep_b)
qed

lemma percentile_roll_p:
  "\<exists>v. outValue (Roll n ''1p3'' vt g) = Some v \<and> 0 \<le> v \<and> v \<le> 100
           \<and> (fst (Intn 10 g) = 0 \<and> fst (Intn 10 (snd (Intn 10 g))) = 0 \<longrightarrow> v = 100)"
proof (rule percentile_eval)
  have f: "findSite [''1'', ''p'', ''3''] [0..<length [''1'', ''p'', ''3'']] = NoSite" by code_simp
  have o: "trimOuter [''1'', ''p'', ''3''] = [''1'', ''p'', ''3'']" by code_simp
  have q: "findQuestion [''1'', ''p'', ''3''] 0 0 = NoTern" by code_simp
  have p: "toRPN (preProcessTokens [''1'', ''p'', ''3''] 100) = Some [''1'', ''3'', ''p'']" by code_simp
  show "Roll n ''1p3'' vt g = evalRPN (RollN n) [''1'', ''3'', ''p''] (New vt g)"
    by (rule Roll_straight [OF tokens_p f o q p])
  show "\<And>st r. evalStep (RollN n) ''p'' (scalar 3 # scalar 1 # st) r
               = percentileOp False (scalar 1) (scalar 3) st r"
    by (rule evalStep_p)
qed

text \<open>
  Claim C3 says that the value of \<open>1b3\<close> and \<open>1p3\<close> is at least 1. With a first tens digit
  5, a units digit 0 and three extra digits 0, the tens digit is replaced by 0 after the
  test for 100, and the value is 0.
\<close>

theorem C3_percentile_zero:
  "outValue (Roll 0 ''1b3'' None (fixedRand [5, 0, 0, 0, 0])) = Some 0
   \<and> outMeta (Roll 0 ''1b3'' None (fixedRand [5, 0, 0, 0, 0])) = Some [0, 0, 0, 0, 0]
   \<and> outValue (Roll 0 ''1p3'' None (fixedRand [5, 0, 0, 0, 0])) = Some 0
   \<and> outMeta (Roll 0 ''1p3'' None (fixedRand [5, 0, 0, 0, 0])) = Some [0, 0, 0, 0, 0]"
  by code_simp

section \<open>Ternary short circuit\<close>

text \<open>
  Once the folding loop finds no group and a top-level ternary is found, only the
  condition and the selected branch are evaluated.
\<close>

lemma ternary_dispatch:
  assumes "findSite tokens [0..<length tokens] = NoSite"
    and "findQuestion (trimOuter tokens) 0 0 = Tern i j"
    and "evalTokens sub (take i (trimOuter tokens)) r = Done (condVal, r')"
  shows "evalTokens sub tokens r
     = (if V condVal \<noteq> 0
        then evalTokens sub (take (j - i - 1) (drop (i + 1) (trimOuter tokens))) r'
        else evalTokens sub (drop (j + 1) (trimOuter tokens)) r')"
  using assms by (subst evalTokens.simps) simp

text \<open>The three expressions named by claim C1 evaluate as it says.\<close>

lemma ternary_examples:
  "outValue (Roll n ''1?1:(1/0)'' None g) = Some 1
   \<and> outValue (Roll n ''(1?($t1=5):($t1=6))+$t1'' None g) = Some 10
   \<and> outTemp (Roll n ''(1?($t1=5):($t1=6))+$t1'' None g) 1 = Some 5
   \<and> outValue (Roll n ''(0?($t1=5):($t1=6))+$t1'' None g) = Some 12
   \<and> outTemp (Roll n ''(0?($t1=5):($t1=6))+$t1'' None g) 1 = Some 6"
  by code_simp

text \<open>
  Claim C1 says that nothing of the unselected branch is evaluated. The folding loop
  runs before the ternary is found and evaluates every parenthesised group whose opening
  parenthesis does not directly follow \<open>?\<close> or \<open>:\<close>, also inside the branch that is then
  not selected: the division by zero in the false branch of \<open>1?1:2+(1/0)\<close> is the result,
  and \<open>0?0+($t1=5):7\<close> has the value 7 and leaves 5 in temp index 1.
\<close>

theorem C1_unselected_branch:
  "outError (Roll n ''1?1:2+(1/0)'' None g) = Some ErrNodeRightValInvalid
   \<and> outValue (Roll n ''0?0+($t1=5):7'' None g) = Some 7
   \<and> outTemp (Roll n ''0?0+($t1=5):7'' None g) 1 = Some 5"
  by code_simp

section \<open>Token preprocessor against its specification\<close>

text \<open>
  The definitions \<open>specNoLeft\<close> to \<open>specDefaultFaces\<close> follow the words of the
  specification, not the source. A token has no left operand when it is at the start or
  when the token before it, in the sequence produced so far, is an operator, \<open>(\<close>, \<open>?\<close>
  or \<open>:\<close>; it has no right operand when it is at the end or the next token is an
  operator, \<open>)\<close> or \<open>:\<close>. \<open>specInsert\<close> inserts the default literals, \<open>specPercent\<close>
  rewrites \<open>d %\<close> to \<open>d 100\<close>, and \<open>specDefaultFaces\<close> then gives every \<open>d\<close> without a
  right operand the default face count.
\<close>

definition specNoLeft :: "string option \<Rightarrow> bool" where
  "specNoLeft prev =
     (case prev of
        None \<Rightarrow> True
      | Some t \<Rightarrow> isOperator (ToLower t) \<or> t = ''('' \<or> t = ''?'' \<or> t = '':'')"

definition specNoRight :: "string list \<Rightarrow> bool" where
  "specNoRight rest =
     (case rest of
        [] \<Rightarrow> True
      | t # _ \<Rightarrow> isOperator (ToLower t) \<or> t = '')'' \<or> t = '':'')"

definition specLeftLiteral :: "string \<Rightarrow> string list" where
  "specLeftLiteral low =
     (if low \<in> set [''d'', ''b'', ''p'', ''a'', ''c''] then [''1'']
      else if low \<in> set [''f'', ''df''] then [''4'']
      else [])"

definition specRightLiteral :: "string \<Rightarrow> string list" where
  "specRightLiteral low =
     (if low \<in> set [''b'', ''p''] then [''1'']
      else if low \<in> set [''f'', ''df''] then [''3'']
      else [])"

fun specInsert :: "string option \<Rightarrow> string list \<Rightarrow> string list" where
  "specInsert prev [] = []"
| "specInsert prev (t # rest) =
     (if ToLower t \<in> set [''d'', ''b'', ''p'', ''f'', ''df'', ''a'', ''c''] then
        (if specNoLeft prev then specLeftLiteral (ToLower t) else [])
        @ (if specNoRight rest
           then t # specRightLiteral (ToLower t)
                @ specInsert (Some (last (t # specRightLiteral (ToLower t)))) rest
           else t # specInsert (Some t) rest)
      else t # specInsert (Some t) rest)"

fun specPercent :: "string list \<Rightarrow> string list" where
  "specPercent (t # u # rest) =
     (if ToLower t = ''d'' \<and> u = ''%'' then ''d'' # ''100'' # specPercent rest
      else t # specPercent (u # rest))"
| "specPercent ts = ts"

fun specDefaultFaces :: "int \<Rightarrow> string list \<Rightarrow> string list" where
  "specDefaultFaces defaultD [] = []"
| "specDefaultFaces defaultD (t # rest) =
     (if ToLower t = ''d'' \<and> specNoRight rest then ''d'' # Itoa defaultD # specDefaultFaces defaultD rest
      else t # specDefaultFaces defaultD rest)"

definition lastToken :: "string list \<Rightarrow> string option" where
  "lastToken out = (if out = [] then None else Some (last out))"

lemma needLeft_spec: "needLeft out = specNoLeft (lastToken out)"
  by (simp add: needLeft_def specNoLeft_def lastToken_def)

lemma needRight_spec: "needRight rest = specNoRight rest"
  by (simp add: needRight_def specNoRight_def)

lemma leftDefault_spec: "leftDefault low = specLeftLiteral low"
  by (simp add: leftDefault_def specLeftLiteral_def)

lemma rightDefault_spec: "rightDefault low = specRightLiteral low"
  by (simp add: rightDefault_def specRightLiteral_def)

text \<open>The first pass of the source, started on any output, appends what \<open>specInsert\<close> says.\<close>

lemma insertDefaults_spec: "insertDefaults toks out = out @ specInsert (lastToken out) toks"
proof (induction toks arbitrary: out)
  case Nil
  show ?case by simp
next
  case (Cons t rest)
  show ?case
  proof (cases "ToLower t \<in> set implicitOps")
    case False
    then have "insertDefaults (t # rest) out = insertDefaults rest (out @ [t])" by simp
    also have "\<dots> = (out @ [t]) @ specInsert (lastToken (out @ [t])) rest" by (rule Cons.IH)
    finally show ?thesis using False by (simp add: lastToken_def implicitOps_def)
  next
    case True
    let ?l = "if specNoLeft (lastToken out) then specLeftLiteral (ToLower t) else []"
    let ?r = "if specNoRight rest then specRightLiteral (ToLower t) else []"
    from True have "insertDefaults (t # rest) out = insertDefaults rest (out @ ?l @ [t] @ ?r)"
      by (simp add: needLeft_spec needRight_spec leftDefault_spec rightDefault_spec)
    also have "\<dots> = (out @ ?l @ [t] @ ?r) @ specInsert (lastToken (out @ ?l @ [t] @ ?r)) rest"
      by (rule Cons.IH)
    also have "lastToken (out @ ?l @ [t] @ ?r) = Some (last (t # ?r))"
      by (simp add: lastToken_def)
    finally show ?thesis using True by (simp add: implicitOps_def)
  qed
qed


lemma lit_facts:
  "Itoa 100 = ''100''" "ToLower ''d'' = ''d''" "ToLower ''100'' = ''100''"
  "isOperator ''100'' = False" "isOperator ''d'' = True"
  "ToLower ''1'' = ''1''" "ToLower ''4'' = ''4''"
  by code_simp+

lemma ToLower_paren: "ToLower u = ''d'' \<Longrightarrow> u \<noteq> '')'' \<and> u \<noteq> '':'' \<and> u \<noteq> ''%''"
proof -
  have "ToLower '')'' = '')''" "ToLower '':'' = '':''" "ToLower ''%'' = ''%''" by code_simp+
  then show "ToLower u = ''d'' \<Longrightarrow> u \<noteq> '')'' \<and> u \<noteq> '':'' \<and> u \<noteq> ''%''" by auto
qed

lemma specNoRight_percent: "specNoRight (specPercent ts) = specNoRight ts"
proof (cases ts rule: specPercent.cases)
  case (1 t u rest)
  then show ?thesis using ToLower_paren [of t]
    by (auto simp: specNoRight_def lit_facts)
qed simp_all

text \<open>The third pass of the source does in one pass what the two rules say in sequence.\<close>

lemma defaultFaces_spec: "defaultFaces False defaultD ts = specDefaultFaces defaultD (specPercent ts)"
proof (induction ts rule: specPercent.induct)
  case (1 t u rest)
  show ?case
  proof (cases "ToLower t = ''d'' \<and> u = ''%''")
    case True
    with 1 show ?thesis by (simp add: lit_facts specNoRight_def)
  next
    case False
    with 1 have ih: "defaultFaces False defaultD (u # rest)
        = specDefaultFaces defaultD (specPercent (u # rest))" by simp
    have nr: "specNoRight (specPercent (u # rest)) = specNoRight (u # rest)"
      by (rule specNoRight_percent)
    from False ih nr show ?thesis
      by (auto simp: specNoRight_def simp del: specPercent.simps specDefaultFaces.simps
            simp add: specPercent.simps(1) [of t u rest] specDefaultFaces.simps(2) [of defaultD t])
  qed
qed (simp_all add: specNoRight_def)

lemma defaultFaces_first:
  "ts = [] \<or> ToLower (hd ts) \<noteq> ''d'' \<Longrightarrow> defaultFaces True defaultD ts = defaultFaces False defaultD ts"
  by (cases ts) auto

lemma rewriteFaces_hd: "ToLower (hd (rewriteFaces xs)) = ToLower (hd xs) \<and> (rewriteFaces xs = [] \<longleftrightarrow> xs = [])"
  by (cases xs rule: rewriteFaces.cases) auto

text \<open>
  After the first pass the first token is never \<open>d\<close>, so the test \<open>j == 0\<close> of the third
  pass never inserts anything.
\<close>

lemma specInsert_hd: "specInsert None toks = [] \<or> ToLower (hd (specInsert None toks)) \<noteq> ''d''"
proof (cases toks)
  case Nil
  then show ?thesis by simp
next
  case (Cons t rest)
  then show ?thesis
    by (auto simp: specNoLeft_def specLeftLiteral_def lit_facts)
qed

lemma preProcessTokens_spec:
  "preProcessTokens toks defaultD
     = specDefaultFaces defaultD (specPercent (rewriteFaces (specInsert None toks)))"
proof -
  have i: "insertDefaults toks [] = specInsert None toks"
    using insertDefaults_spec [of toks "[]"] by (simp add: lastToken_def)
  have "rewriteFaces (specInsert None toks) = []
      \<or> ToLower (hd (rewriteFaces (specInsert None toks))) \<noteq> ''d''"
    using specInsert_hd [of toks] rewriteFaces_hd [of "specInsert None toks"] by auto
  then have "defaultFaces True defaultD (rewriteFaces (specInsert None toks))
      = defaultFaces False defaultD (rewriteFaces (specInsert None toks))"
    by (rule defaultFaces_first)
  then show ?thesis by (simp add: preProcessTokens_def i defaultFaces_spec)
qed

lemma tokens_d: "tokenize (replaceVars (New vt g) (ToLower ''d'')) = Some [''d'']"
proof (cases vt)
  case None
  show ?thesis unfolding None by code_simp
next
  case (Some m)
  show ?thesis unfolding Some by code_simp
qed

lemma tokens_d_percent: "tokenize (replaceVars (New vt g) (ToLower ''d%'')) = Some [''d'', ''%'']"
proof (cases vt)
  case None
  show ?thesis unfolding None by code_simp
next
  case (Some m)
  show ?thesis unfolding Some by code_simp
qed

lemma tokens_1d100:
  "tokenize (replaceVars (New vt g) (ToLower ''1d100'')) = Some [''1'', ''d'', ''100'']"
proof (cases vt)
  case None
  show ?thesis unfolding None by code_simp
next
  case (Some m)
  show ?thesis unfolding Some by code_simp
qed

lemma roll_d: "Roll n ''d'' vt g = evalRPN (RollN n) [''1'', ''100'', ''d''] (New vt g)"
proof (rule Roll_straight [OF tokens_d])
  show "findSite [''d''] [0..<length [''d'']] = NoSite" by code_simp
  show "trimOuter [''d''] = [''d'']" by code_simp
  show "findQuestion [''d''] 0 0 = NoTern" by code_simp
  show "toRPN (preProcessTokens [''d''] 100) = Some [''1'', ''100'', ''d'']" by code_simp
qed

lemma roll_d_percent: "Roll n ''d%'' vt g = evalRPN (RollN n) [''1'', ''100'', ''d''] (New vt g)"
proof (rule Roll_straight [OF tokens_d_percent])
  show "findSite [''d'', ''%''] [0..<length [''d'', ''%'']] = NoSite" by code_simp
  show "trimOuter [''d'', ''%''] = [''d'', ''%'']" by code_simp
  show "findQuestion [''d'', ''%''] 0 0 = NoTern" by code_simp
  show "toRPN (preProcessTokens [''d'', ''%''] 100) = Some [''1'', ''100'', ''d'']" by code_simp
qed

lemma roll_1d100: "Roll n ''1d100'' vt g = evalRPN (RollN n) [''1'', ''100'', ''d''] (New vt g)"
proof (rule Roll_straight [OF tokens_1d100])
  show "findSite [''1'', ''d'', ''100''] [0..<length [''1'', ''d'', ''100'']] = NoSite" by code_simp
  show "trimOuter [''1'', ''d'', ''100''] = [''1'', ''d'', ''100'']" by code_simp
  show "findQuestion [''1'', ''d'', ''100''] 0 0 = NoTern" by code_simp
  show "toRPN (preProcessTokens [''1'', ''d'', ''100''] 100) = Some [''1'', ''100'', ''d'']" by code_simp
qed

text \<open>
  Claim C7. For every token sequence and default face count, \<open>preProcessTokens\<close> returns
  what the rules of the specification say: default left literals (1 for \<open>d\<close>, \<open>b\<close>, \<open>p\<close>,
  \<open>a\<close>, \<open>c\<close>; 4 for \<open>f\<close> and \<open>df\<close>), default right literals (1 for \<open>b\<close> and \<open>p\<close>; 3 for
  \<open>f\<close> and \<open>df\<close>), \<open>d %\<close> rewritten to \<open>d 100\<close>, and the default face count after a \<open>d\<close>
  that still has no right operand; between them stands the rewriting of the custom-faces
  pattern, which the claim does not speak about. With the default face count 100 of
  \<open>New\<close>, the expressions \<open>d\<close> and \<open>d%\<close> evaluate as \<open>1d100\<close> does, for every table, random
  source and nesting bound.
\<close>

theorem C7_preprocess:
  "preProcessTokens toks defaultD
     = specDefaultFaces defaultD (specPercent (rewriteFaces (specInsert None toks)))
   \<and> Roll n ''d'' vt g = Roll n ''1d100'' vt g
   \<and> Roll n ''d%'' vt g = Roll n ''1d100'' vt g"
  using preProcessTokens_spec [of toks defaultD]
  by (simp add: roll_d roll_d_percent roll_1d100)

section \<open>The sum invariant\<close>

text \<open>
  \<open>sumValue\<close> is the invariant of the operand stack: no string meta, every number in the
  64-bit range, and the value equal to the sum of the integer meta list wherever there is
  one. The sum is Go's: \<open>sum64\<close> adds in 64 bits. \<open>sumTok\<close> holds of the tokens of an
  expression built from integer literals and the operators \<open>d\<close>, \<open>f\<close> (or \<open>df\<close>), \<open>k\<close>, \<open>q\<close>,
  \<open>kh\<close>, \<open>kl\<close>, \<open>dh\<close>, \<open>dl\<close>, \<open>min\<close>, \<open>max\<close>, \<open>sp\<close>, \<open>tp\<close> and \<open>lp\<close>.
\<close>

definition inRange :: "int \<Rightarrow> bool" where
  "inRange x = (minInt \<le> x \<and> x \<le> maxInt)"

definition sumValue :: "Value \<Rightarrow> bool" where
  "sumValue v =
     (MetaStr v = [] \<and> inRange (V v) \<and> list_all inRange (metaList v)
      \<and> (if MetaEnable v \<or> Meta v \<noteq> None then V v = sum64 (metaList v) else True))"

definition sumOps :: "string list" where
  "sumOps = [''d'', ''f'', ''df'', ''k'', ''q'', ''kh'', ''kl'', ''dh'', ''dl'', ''min'', ''max'',
             ''sp'', ''tp'', ''lp'']"

definition sumTok :: "string \<Rightarrow> bool" where
  "sumTok t = (case Atoi t of Some n \<Rightarrow> True | None \<Rightarrow> t \<in> set sumOps)"

lemma wrap64_range: "inRange (wrap64 x)"
  by (simp add: inRange_def wrap64_def minInt_def maxInt_def)

lemma sum64_fold_range: "inRange a \<Longrightarrow> inRange (foldl (\<lambda>s v. wrap64 (s + v)) a xs)"
  by (induction xs arbitrary: a) (simp_all add: wrap64_range)

lemma sum64_range: "inRange (sum64 xs)"
  unfolding sum64_def by (rule sum64_fold_range) (simp add: inRange_def minInt_def maxInt_def)

lemma sum64_single: "inRange x \<Longrightarrow> sum64 [x] = x"
  by (simp add: sum64_def inRange_def wrap64_id)

lemma Atoi_range: "Atoi t = Some v \<Longrightarrow> inRange v"
  by (auto simp: Atoi_def Let_def inRange_def split: if_splits)

lemma sumValue_meta:
  "list_all inRange xs \<Longrightarrow> sumValue (metaValue (sum64 xs) xs en)"
  by (simp add: sumValue_def metaValue_def metaList_def zeroValue_def sum64_range)

lemma sumValue_scalar: "inRange x \<Longrightarrow> sumValue (scalar x)"
  by (simp add: sumValue_def scalar_def metaList_def zeroValue_def)

lemma binary_Done:
  "binary f st r = Done res \<Longrightarrow> \<exists>a b rest. st = b # a # rest \<and> f a b rest r = Done res"
  by (auto simp: binary_def split: list.splits)

lemma resolve_sum:
  "MetaStr v = [] \<Longrightarrow> resolveMetaValues sub v r = Done (xs, r')
   \<Longrightarrow> r' = r \<and> xs = (if \<not> MetaEnable v then [V v] else metaList v)"
  by (auto simp: resolveMetaValues_def metaList_def split: if_splits option.splits)

lemma resolve_sum_range:
  assumes "sumValue v" "resolveMetaValues sub v r = Done (xs, r')"
  shows "list_all inRange xs"
  using assms resolve_sum [of v sub r xs r'] by (auto simp: sumValue_def)

lemma select_range:
  assumes "list_all inRange xs"
  shows "list_all inRange (fst (selectFromMeta xs n mode))
         \<and> snd (selectFromMeta xs n mode) = sum64 (fst (selectFromMeta xs n mode))"
proof -
  have s: "\<forall>x\<in>set (sort xs). inRange x" using assms by (simp add: list_all_iff)
  have t: "\<And>k ys. \<forall>x\<in>set ys. inRange x \<Longrightarrow> list_all inRange (take k ys) \<and> list_all inRange (drop k ys)"
    by (auto simp: list_all_iff dest: in_set_takeD in_set_dropD)
  from s have r: "\<forall>x\<in>set (rev (sort xs)). inRange x" by simp
  from t [OF s] t [OF r] show ?thesis
    by (simp add: selectFromMeta_def sum64_def)
qed


lemma rolls_inRange:
  assumes "0 < n" "n \<le> 10000" "- 1 \<le> off" "off \<le> 1"
  shows "list_all inRange (fst (rollMany k n off g))"
  using rollMany_range [OF assms(1), of k off g] assms
  by (auto simp: list_all_iff inRange_def minInt_def maxInt_def)

lemma opD_sum:
  assumes "opD a b st r = Done (st', r')" "list_all sumValue st"
  shows "list_all sumValue st'"
  using assms rolls_inRange [of "lastOrV b" 1 "nat (lastOrV a)" "rng r"]
  by (auto simp: opD_def Let_def sumValue_meta split: if_splits)

lemma opF_sum:
  assumes "opF a b st r = Done (st', r')" "list_all sumValue st"
  shows "list_all sumValue st'"
  using assms rolls_inRange [of 3 "- 1" "nat (V a)" "rng r"]
  by (auto simp: opF_def Let_def sumValue_meta split: if_splits)

lemma opKeep_sum:
  assumes "opKeep sub mode a b st r = Done (st', r')" "list_all sumValue st" "sumValue a"
  shows "list_all sumValue st'"
proof -
  from assms(1) obtain xs where res: "resolveMetaValues sub a r = Done (xs, r')"
    and st': "st' = metaValue (snd (selectFromMeta xs (V b) mode)) (fst (selectFromMeta xs (V b) mode))
                 (fst (selectFromMeta xs (V b) mode) \<noteq> []) # st"
    by (auto simp: opKeep_def split: if_splits outcome.splits)
  from resolve_sum_range [OF assms(3) res] have "list_all inRange xs" .
  from select_range [OF this, of "V b" mode] st' assms(2) show ?thesis
    by (simp add: sumValue_meta)
qed

lemma opSelect_sum:
  assumes "opSelect sub mode a b st r = Done (st', r')" "list_all sumValue st" "sumValue a"
  shows "list_all sumValue st'"
proof -
  from assms(1) obtain xs where res: "resolveMetaValues sub a r = Done (xs, r')"
    and st': "st' = metaValue (snd (selectFromMeta xs (V b) mode)) (fst (selectFromMeta xs (V b) mode))
                 (fst (selectFromMeta xs (V b) mode) \<noteq> []) # st"
    by (auto simp: opSelect_def split: if_splits outcome.splits)
  from resolve_sum_range [OF assms(3) res] have "list_all inRange xs" .
  from select_range [OF this, of "V b" mode] st' assms(2) show ?thesis
    by (simp add: sumValue_meta)
qed

lemma opMinMax_sum:
  assumes "opMinMax tok a b st r = Done (st', r')" "list_all sumValue st" "sumValue a" "sumValue b"
  shows "list_all sumValue st'"
proof -
  let ?xs = "if \<not> MetaEnable a then [V a] else metaList a"
  from assms(3) have "list_all inRange ?xs" by (simp add: sumValue_def)
  with assms(4) have "list_all inRange (map (clampTo tok (V b)) ?xs)"
    by (auto simp: list_all_iff clampTo_def sumValue_def)
  with assms(1,2) show ?thesis
    by (auto simp: opMinMax_def Let_def sumValue_meta split: if_splits)
qed

lemma opSp_sum:
  assumes "opSp a b st r = Done (st', r')" "list_all sumValue st" "sumValue a"
  shows "list_all sumValue st'"
proof -
  have one: "\<And>x. inRange x \<Longrightarrow> sumValue (metaValue x [x] True)"
    using sumValue_meta [of "[x]" True for x] by (simp add: sum64_single)
  from assms(3) have el: "\<And>i. i < length (metaList a) \<Longrightarrow> inRange (metaList a ! i)"
    by (simp add: sumValue_def list_all_length)
  from assms(3) have va: "inRange (V a)" by (simp add: sumValue_def)
  from assms(1,2) one [OF va] show ?thesis
    by (auto simp: opSp_def Let_def split: if_splits intro!: one el)
qed

lemma sum64_Nil: "sum64 [] = 0"
  by (simp add: sum64_def)

lemma opTp_sum:
  assumes "opTp a b st r = Done (st', r')" "list_all sumValue st" "sumValue a"
  shows "list_all sumValue st'"
proof -
  let ?nl = "\<lambda>k. take k (metaList a) @ drop (k + 1) (metaList a)"
  from assms(3) have rg: "\<And>k. list_all inRange (?nl k)"
    by (auto simp: sumValue_def list_all_iff dest: in_set_takeD in_set_dropD)
  from assms(1) have "st' = metaValue (sum64 []) [] False # st
      \<or> (\<exists>k en. st' = metaValue (sum64 (?nl k)) (?nl k) en # st)"
    by (simp add: opTp_def Let_def sum64_Nil split: if_splits) blast
  then show ?thesis
  proof
    assume "st' = metaValue (sum64 []) [] False # st"
    with assms(2) sumValue_meta [of "[]" False] show ?thesis by simp
  next
    assume "\<exists>k en. st' = metaValue (sum64 (?nl k)) (?nl k) en # st"
    then obtain k en where "st' = metaValue (sum64 (?nl k)) (?nl k) en # st" by blast
    with assms(2) sumValue_meta [OF rg, of k en] show ?thesis by simp
  qed
qed

lemma opLp_sum:
  assumes "opLp sub a b st r = Done (st', r')" "list_all sumValue st" "sumValue a"
  shows "list_all sumValue st'"
proof -
  from assms(3) have ms: "MetaStr a = []" by (simp add: sumValue_def)
  with assms(1) obtain xs where res: "resolveMetaValues sub a r = Done (xs, r')"
    and st': "st' = metaValue (sum64 (concat (replicate (nat (V b)) xs)))
                 (concat (replicate (nat (V b)) xs)) (concat (replicate (nat (V b)) xs) \<noteq> []) # st"
    by (auto simp: opLp_def Let_def split: if_splits outcome.splits)
  from resolve_sum_range [OF assms(3) res] have "list_all inRange xs" .
  then have "list_all inRange (concat (replicate (nat (V b)) xs))"
    by (auto simp: list_all_iff)
  with st' assms(2) show ?thesis by (simp add: sumValue_meta)
qed

lemma evalStep_ops:
  "evalStep sub ''d'' st r = binary opD st r"
  "evalStep sub ''f'' st r = binary opF st r"
  "evalStep sub ''df'' st r = Fail ErrUnknownGenerate"
  "evalStep sub ''k'' st r = binary (opKeep sub ''kh'') st r"
  "evalStep sub ''q'' st r = binary (opKeep sub ''kl'') st r"
  "evalStep sub ''sp'' st r = binary opSp st r"
  "evalStep sub ''tp'' st r = binary opTp st r"
  "evalStep sub ''lp'' st r = binary (opLp sub) st r"
  by (simp_all add: tok_simps)

lemma binary_sum:
  assumes "evalStep sub t st r = binary f st r" "evalStep sub t st r = Done (st', r')"
    and "list_all sumValue st"
    and "\<And>a b rest. f a b rest r = Done (st', r') \<Longrightarrow> list_all sumValue rest \<Longrightarrow> sumValue a
           \<Longrightarrow> sumValue b \<Longrightarrow> list_all sumValue st'"
  shows "list_all sumValue st'"
proof -
  from assms(1,2) obtain a b rest where "st = b # a # rest" "f a b rest r = Done (st', r')"
    using binary_Done [of f st r "(st', r')"] by auto
  with assms(3,4) show ?thesis by simp
qed

text \<open>Every token of the class keeps the invariant of the stack.\<close>

lemma evalStep_sum:
  assumes "sumTok t" "list_all sumValue st" "evalStep sub t st r = Done (st', r')"
  shows "list_all sumValue st'"
proof (cases "Atoi t")
  case (Some v)
  with assms(3) have "st' = scalar v # st" by (simp add: evalStep_def)
  with assms(2) Atoi_range [OF Some] show ?thesis by (simp add: sumValue_scalar)
next
  case None
  with assms(1) have "t \<in> set sumOps" by (simp add: sumTok_def)
  then have "t = ''d'' \<or> t = ''f'' \<or> t = ''df'' \<or> t = ''k'' \<or> t = ''q'' \<or> t = ''kh'' \<or> t = ''kl''
      \<or> t = ''dh'' \<or> t = ''dl'' \<or> t = ''min'' \<or> t = ''max'' \<or> t = ''sp'' \<or> t = ''tp'' \<or> t = ''lp''"
    by (simp only: sumOps_def list.set insert_iff empty_iff simp_thms)
  then show ?thesis
  proof (elim disjE)
    assume t: "t = ''d''"
    show ?thesis
    proof (rule binary_sum [OF _ assms(3) assms(2)])
      show "evalStep sub t st r = binary (opD) st r"
        unfolding t by (rule evalStep_ops(1))
    qed (auto intro: opD_sum)
  next
    assume t: "t = ''f''"
    show ?thesis
    proof (rule binary_sum [OF _ assms(3) assms(2)])
      show "evalStep sub t st r = binary (opF) st r"
        unfolding t by (rule evalStep_ops(2))
    qed (auto intro: opF_sum)
  next
    assume "t = ''df''"
    with assms(3) show ?thesis by (simp add: evalStep_ops)
  next
    assume t: "t = ''k''"
    show ?thesis
    proof (rule binary_sum [OF _ assms(3) assms(2)])
      show "evalStep sub t st r = binary (opKeep sub ''kh'') st r"
        unfolding t by (rule evalStep_ops(4))
    qed (auto intro: opKeep_sum)
  next
    assume t: "t = ''q''"
    show ?thesis
    proof (rule binary_sum [OF _ assms(3) assms(2)])
      show "evalStep sub t st r = binary (opKeep sub ''kl'') st r"
        unfolding t by (rule evalStep_ops(5))
    qed (auto intro: opKeep_sum)
  next
    assume t: "t = ''kh''"
    show ?thesis
    proof (rule binary_sum [OF _ assms(3) assms(2)])
      show "evalStep sub t st r = binary (opSelect sub ''kh'') st r"
        unfolding t by (simp add: evalStep_select)
    qed (auto intro: opSelect_sum)
  next
    assume t: "t = ''kl''"
    show ?thesis
    proof (rule binary_sum [OF _ assms(3) assms(2)])
      show "evalStep sub t st r = binary (opSelect sub ''kl'') st r"
        unfolding t by (simp add: evalStep_select)
    qed (auto intro: opSelect_sum)
  next
    assume t: "t = ''dh''"
    show ?thesis
    proof (rule binary_sum [OF _ assms(3) assms(2)])
      show "evalStep sub t st r = binary (opSelect sub ''dh'') st r"
        unfolding t by (simp add: evalStep_select)
    qed (auto intro: opSelect_sum)
  next
    assume t: "t = ''dl''"
    show ?thesis
    proof (rule binary_sum [OF _ assms(3) assms(2)])
      show "evalStep sub t st r = binary (opSelect sub ''dl'') st r"
        unfolding t by (simp add: evalStep_select)
    qed (auto intro: opSelect_sum)
  next
    assume t: "t = ''min''"
    show ?thesis
    proof (rule binary_sum [OF _ assms(3) assms(2)])
      show "evalStep sub t st r = binary (opMinMax ''min'') st r"
        unfolding t by (rule evalStep_min)
    qed (auto intro: opMinMax_sum)
  next
    assume t: "t = ''max''"
    show ?thesis
    proof (rule binary_sum [OF _ assms(3) assms(2)])
      show "evalStep sub t st r = binary (opMinMax ''max'') st r"
        unfolding t by (rule evalStep_max)
    qed (auto intro: opMinMax_sum)
  next
    assume t: "t = ''sp''"
    show ?thesis
    proof (rule binary_sum [OF _ assms(3) assms(2)])
      show "evalStep sub t st r = binary (opSp) st r"
        unfolding t by (rule evalStep_ops(6))
    qed (auto intro: opSp_sum)
  next
    assume t: "t = ''tp''"
    show ?thesis
    proof (rule binary_sum [OF _ assms(3) assms(2)])
      show "evalStep sub t st r = binary (opTp) st r"
        unfolding t by (rule evalStep_ops(7))
    qed (auto intro: opTp_sum)
  next
    assume t: "t = ''lp''"
    show ?thesis
    proof (rule binary_sum [OF _ assms(3) assms(2)])
      show "evalStep sub t st r = binary (opLp sub) st r"
        unfolding t by (rule evalStep_ops(8))
    qed (auto intro: opLp_sum)
  qed
qed

lemma evalLoop_sum:
  assumes "list_all sumTok rpn" "list_all sumValue st" "evalLoop sub rpn st r = Done (st', r')"
  shows "list_all sumValue st'"
  using assms
proof (induction rpn arbitrary: st r)
  case Nil
  then show ?case by simp
next
  case (Cons t rest)
  from Cons.prems(3) obtain st1 r1 where 1: "evalStep sub t st r = Done (st1, r1)"
    and 2: "evalLoop sub rest st1 r1 = Done (st', r')"
    by (auto split: outcome.splits)
  from Cons.prems(1,2) 1 have "list_all sumValue st1" using evalStep_sum [of t st sub r st1 r1] by simp
  with Cons.IH [of st1 r1] Cons.prems(1) 2 show ?case by simp
qed

lemma evalRPN_sum:
  assumes "list_all sumTok rpn" "evalRPN sub rpn r = Done (v, r')"
  shows "sumValue v"
proof -
  from assms(2) obtain st where 1: "evalLoop sub rpn [] r = Done (st, r')" and 2: "length st = 1"
    and 3: "v = hd st"
    by (auto simp: evalRPN_def split: outcome.splits if_splits)
  from evalLoop_sum [OF assms(1) _ 1] have "list_all sumValue st" by simp
  with 2 3 show ?thesis by (cases st) auto
qed

lemma toLowerChar_literal: "list_all (\<lambda>c. toLowerChar c = c) (CHR ''-'' # CHR ''+'' # digitChars)"
  by code_simp

lemma literal_chars:
  assumes "Atoi t = Some v"
  shows "set t \<subseteq> set (CHR ''-'' # CHR ''+'' # digitChars)"
proof -
  let ?ds = "if t \<noteq> [] \<and> (hd t = CHR ''-'' \<or> hd t = CHR ''+'') then tl t else t"
  from assms have d: "list_all isDigit ?ds"
    by (auto simp: Atoi_def Let_def split: if_splits)
  show ?thesis
  proof (cases "t \<noteq> [] \<and> (hd t = CHR ''-'' \<or> hd t = CHR ''+'')")
    case True
    then obtain c cs where t: "t = c # cs" and c: "c = CHR ''-'' \<or> c = CHR ''+''"
      by (cases t) auto
    with d have "list_all isDigit cs" by simp
    then have "set cs \<subseteq> set digitChars" by (auto simp: list_all_iff isDigit_def)
    with t c show ?thesis by auto
  next
    case False
    with d have "list_all isDigit t" by (simp split: if_splits)
    then have "set t \<subseteq> set digitChars" by (auto simp: list_all_iff isDigit_def)
    then show ?thesis by auto
  qed
qed

lemma literal_lower: "Atoi t = Some v \<Longrightarrow> ToLower t = t"
proof -
  assume a: "Atoi t = Some v"
  have m: "map toLowerChar t = t"
  proof (rule map_idI)
    fix c
    assume "c \<in> set t"
    with a literal_chars [of t v] have "c \<in> set (CHR ''-'' # CHR ''+'' # digitChars)" by blast
    with toLowerChar_literal show "toLowerChar c = c" by (simp only: list_all_iff)
  qed
  have "isASCII c" if "c \<in> set t" for c
  proof -
    from that a literal_chars [of t v] have "c \<in> set (CHR ''-'' # CHR ''+'' # digitChars)" by blast
    then show ?thesis by (intro ascii_digit) auto
  qed
  then have "list_all isASCII t" unfolding list_all_iff by blast
  with m show ?thesis by (simp add: ToLower_def)
qed

lemma sumOps_facts:
  "list_all (\<lambda>t. ToLower t = t \<and> isOperator t \<and> Atoi t = None \<and> \<not> isOperand t) sumOps"
  by code_simp

lemma not_sumTok:
  "\<not> sumTok ''a''" "\<not> sumTok ''c''" "\<not> sumTok ''(''" "\<not> sumTok '')''" "\<not> sumTok ''?''"
  "\<not> sumTok '':''"
  by code_simp+

lemma is_sumTok:
  "sumTok ''1''" "sumTok ''3''" "sumTok ''4''" "sumTok ''d''" "sumTok ''f''" "sumTok ''100''"
  by code_simp+

lemma sumTok_lower: "sumTok t \<Longrightarrow> ToLower t = t"
proof (cases "Atoi t")
  case None
  assume "sumTok t"
  with None have "t \<in> set sumOps" by (simp add: sumTok_def)
  with sumOps_facts show ?thesis unfolding list_all_iff by blast
next
  case (Some v)
  then show ?thesis by (rule literal_lower)
qed


lemma defaults_sumTok: "list_all sumTok (leftDefault low) \<and> list_all sumTok (rightDefault low)"
  by (simp add: leftDefault_def rightDefault_def is_sumTok)

text \<open>
  \<open>Itoa\<close> yields a literal that \<open>Atoi\<close> accepts: the value of a parenthesised group is
  put back among the tokens as such a literal.
\<close>

lemma digit_roundtrip: "list_all (\<lambda>d. digitVal (digitOf d) = d) digitNums"
  by code_simp

lemma digitVal_digitOf:
  assumes "0 \<le> d" "d < 10"
  shows "digitVal (digitOf d) = d"
proof -
  from assms have "d = 0 \<or> d = 1 \<or> d = 2 \<or> d = 3 \<or> d = 4 \<or> d = 5 \<or> d = 6 \<or> d = 7 \<or> d = 8 \<or> d = 9"
    by arith
  then have "d \<in> set digitNums" by (auto simp add: digitNums_def)
  with digit_roundtrip show ?thesis by (simp only: list_all_iff)
qed

lemma parseDigits_natDigits: "0 \<le> n \<Longrightarrow> parseDigits (natDigits n) = n"
proof (induction n rule: natDigits.induct)
  case (1 n)
  show ?case
  proof (cases "n < 10")
    case True
    with "1.prems" show ?thesis
      by (subst natDigits.simps) (simp add: parseDigits_def digitVal_digitOf)
  next
    case False
    with "1.prems" have "0 \<le> n div 10" by simp
    from "1.IH" [OF False this] have "parseDigits (natDigits (n div 10)) = n div 10" .
    moreover have "digitVal (digitOf (n mod 10)) = n mod 10"
      by (rule digitVal_digitOf) simp_all
    ultimately have "parseDigits (natDigits (n div 10) @ [digitOf (n mod 10)]) = n"
      by (simp add: parseDigits_def)
    with False show ?thesis by (subst natDigits.simps) simp
  qed
qed

lemma natDigits_digits: "natDigits n \<noteq> [] \<and> list_all isDigit (natDigits n)"
proof -
  have "natDigits n \<noteq> []" by (subst natDigits.simps) simp
  with natDigits_chars [of n] show ?thesis by (auto simp add: list_all_iff isDigit_def)
qed

lemma digit_not_sign: "list_all (\<lambda>c. c \<noteq> CHR ''-'' \<and> c \<noteq> CHR ''+'') digitChars"
  by code_simp

lemma Atoi_Itoa: "inRange n \<Longrightarrow> Atoi (Itoa n) = Some n"
proof -
  assume r: "inRange n"
  have hd_digit: "hd (natDigits m) \<noteq> CHR ''-'' \<and> hd (natDigits m) \<noteq> CHR ''+''" for m
  proof -
    from natDigits_digits [of m] have "hd (natDigits m) \<in> set (natDigits m)" by simp
    with natDigits_chars [of m] have "hd (natDigits m) \<in> set digitChars" by blast
    with digit_not_sign show ?thesis unfolding list_all_iff by blast
  qed
  show ?thesis
  proof (cases "n < 0")
    case True
    then have "parseDigits (natDigits (- n)) = - n" by (simp add: parseDigits_natDigits)
    with True r natDigits_digits [of "- n"] show ?thesis
      by (simp add: Atoi_def Itoa_def Let_def inRange_def)
  next
    case False
    then have "parseDigits (natDigits n) = n" by (simp add: parseDigits_natDigits)
    with False r natDigits_digits [of n] hd_digit [of n] show ?thesis
      by (simp add: Atoi_def Itoa_def Let_def inRange_def)
  qed
qed

text \<open>No operator changes the default face count of the evaluator.\<close>

definition keepsFaces :: "RD \<Rightarrow> ('a \<times> RD) outcome \<Rightarrow> bool" where
  "keepsFaces r x = (case x of Done (a, r') \<Rightarrow> DefaultFaces r' = DefaultFaces r | _ \<Rightarrow> True)"

lemma keepsFaces_if:
  "(c \<Longrightarrow> keepsFaces r a) \<Longrightarrow> (\<not> c \<Longrightarrow> keepsFaces r b) \<Longrightarrow> keepsFaces r (if c then a else b)"
  by simp

lemma keepsFaces_Fail: "keepsFaces r (Fail e)"
  by (simp add: keepsFaces_def)

lemma keepsFaces_Done: "keepsFaces r (Done (x, r))"
  by (simp add: keepsFaces_def)

lemma keepsFaces_trans:
  "keepsFaces r1 x \<Longrightarrow> DefaultFaces r1 = DefaultFaces r \<Longrightarrow> keepsFaces r x"
  by (auto simp add: keepsFaces_def split: outcome.splits)

lemma binary_faces:
  "(\<And>a b rest. keepsFaces r (f a b rest r)) \<Longrightarrow> keepsFaces r (binary f st r)"
  by (simp add: binary_def keepsFaces_Fail split: list.splits)

lemma ternary_faces:
  "(\<And>a b c rest. keepsFaces r (f a b c rest r)) \<Longrightarrow> keepsFaces r (ternary f st r)"
  by (simp add: ternary_def keepsFaces_Fail split: list.splits)

lemma getFromMetaTuple_faces: "keepsFaces r (getFromMetaTuple sub els flagUpdate r res)"
proof (induction sub els flagUpdate r res rule: getFromMetaTuple.induct)
  case (1 sub flagUpdate r res)
  show ?case by (simp add: keepsFaces_Done)
next
  case (2 sub v els flagUpdate r res)
  then show ?case by simp
next
  case (3 sub v els flagUpdate r res)
  show ?case
  proof (cases "sub v (ValueTable r) (rng r)")
    case Diverge
    then show ?thesis by (simp add: keepsFaces_def)
  next
    case (Fail e)
    then show ?thesis by (simp add: keepsFaces_def)
  next
    case (Done x)
    obtain val t h where x: "x = (val, t, h)" by (cases x) auto
    from "3.IH" [OF Done x [symmetric] refl]
    have "keepsFaces r (getFromMetaTuple sub els flagUpdate
            (r\<lparr>rng := h,
               ValueTable :=
                 (if flagUpdate then (case t of None \<Rightarrow> ValueTable r | Some m \<Rightarrow> Some m)
                  else ValueTable r)\<rparr>)
            (res @ [val]))"
      by (rule keepsFaces_trans) simp
    with Done x show ?thesis by simp
  qed
qed

lemma resolveMetaValues_faces: "keepsFaces r (resolveMetaValues sub v r)"
  using getFromMetaTuple_faces [of r sub "map MStr (MetaStr v)" True "[]"]
  by (auto simp add: resolveMetaValues_def keepsFaces_def split: outcome.splits option.splits)

lemma operator_faces:
  "keepsFaces r (opChoose a b c st r)"
  "keepsFaces r (opArith f a b st r)"
  "keepsFaces r (opDiv a b st r)"
  "keepsFaces r (opPow a b st r)"
  "keepsFaces r (opD a b st r)"
  "keepsFaces r (opF a b st r)"
  "keepsFaces r (chainOp additive a b m checkFaces st r)"
  "keepsFaces r (percentileOp bonus a b st r)"
  "keepsFaces r (opAssign a b st r)"
  "keepsFaces r (opMinMax tok a b st r)"
  "keepsFaces r (opSp a b st r)"
  "keepsFaces r (opTp a b st r)"
  by (simp_all add: keepsFaces_def opChoose_def opArith_def opDiv_def opPow_def opD_def opF_def
      chainOp_def percentileOp_def opAssign_def opMinMax_def opSp_def opTp_def Let_def)

lemma resolving_faces:
  "keepsFaces r (opKeep sub mode a b st r)"
  "keepsFaces r (opSelect sub mode a b st r)"
  "keepsFaces r (opLp sub a b st r)"
  using resolveMetaValues_faces [of r sub a]
  by (auto simp add: keepsFaces_def opKeep_def opSelect_def opLp_def Let_def split: outcome.splits)

lemma evalOp_faces: "keepsFaces r (evalOp sub tok st r)"
  unfolding evalOp_def
  by (intro keepsFaces_if binary_faces ternary_faces operator_faces resolving_faces
      keepsFaces_Fail)

lemma evalStep_faces: "keepsFaces r (evalStep sub tok st r)"
proof (cases "Atoi tok")
  case None
  show ?thesis
    unfolding evalStep_def None option.case
    by (intro keepsFaces_if keepsFaces_Done evalOp_faces)
next
  case (Some v)
  show ?thesis
    unfolding evalStep_def Some option.case by (rule keepsFaces_Done)
qed

lemma evalLoop_faces: "keepsFaces r (evalLoop sub toks st r)"
proof (induction toks arbitrary: st r)
  case Nil
  show ?case by (simp add: keepsFaces_Done)
next
  case (Cons tok rest)
  show ?case
  proof (cases "evalStep sub tok st r")
    case Diverge
    then show ?thesis by (simp add: keepsFaces_def)
  next
    case (Fail e)
    then show ?thesis by (simp add: keepsFaces_def)
  next
    case (Done x)
    obtain st1 r1 where x: "x = (st1, r1)" by (cases x) auto
    from evalStep_faces [of r sub tok st] Done x have "DefaultFaces r1 = DefaultFaces r"
      by (simp add: keepsFaces_def)
    with Cons.IH [of r1 st1] have "keepsFaces r (evalLoop sub rest st1 r1)"
      by (rule keepsFaces_trans)
    with Done x show ?thesis by simp
  qed
qed

lemma evalRPN_faces: "evalRPN sub rpn r = Done (v, r') \<Longrightarrow> DefaultFaces r' = DefaultFaces r"
  using evalLoop_faces [of r sub rpn "[]"]
  by (auto simp add: evalRPN_def keepsFaces_def split: outcome.splits if_splits)

lemma findQuestion_none: "''?'' \<notin> set ts \<Longrightarrow> findQuestion ts i d = NoTern"
  by (induction ts arbitrary: i d) auto

text \<open>
  \<open>sumExpr\<close> holds of the tokens of an expression built from integer literals, the
  operators of \<open>sumOps\<close> and parentheses. When \<open>evalTokens\<close> has folded every
  parenthesised group, no closing parenthesis is left; \<open>sumOpen\<close> is the class of the
  tokens that reach the preprocessor then.
\<close>

definition sumExpr :: "string \<Rightarrow> bool" where
  "sumExpr t = (sumTok t \<or> t = ''('' \<or> t = '')'')"

definition sumOpen :: "string \<Rightarrow> bool" where
  "sumOpen t = (sumTok t \<or> t = ''('')"

lemma open_facts:
  "ToLower ''('' = ''(''" "\<not> isOperator ''(''" "\<not> isOperand ''(''" "Atoi ''('' = None"
  "''('' \<notin> set implicitOps"
  by code_simp+

lemma sumTok_open: "list_all sumTok xs \<Longrightarrow> list_all sumOpen xs"
  by (simp add: list_all_iff sumOpen_def)

lemma sumOpen_lower: "sumOpen t \<Longrightarrow> ToLower t = t"
  using sumTok_lower [of t] by (auto simp add: sumOpen_def open_facts)

lemma sumOpen_operator: "sumOpen t \<Longrightarrow> isOperator t \<Longrightarrow> sumTok t"
  by (auto simp add: sumOpen_def open_facts)

lemma insertDefaults_open:
  "list_all sumOpen toks \<Longrightarrow> list_all sumOpen out \<Longrightarrow> list_all sumOpen (insertDefaults toks out)"
proof (induction toks arbitrary: out)
  case Nil
  then show ?case by simp
next
  case (Cons t rest)
  let ?out = "(if needLeft out then out @ leftDefault (ToLower t) else out) @ [t]
           @ (if needRight rest then rightDefault (ToLower t) else [])"
  from defaults_sumTok [of "ToLower t"]
  have "list_all sumOpen (leftDefault (ToLower t))" "list_all sumOpen (rightDefault (ToLower t))"
    by (simp_all add: sumTok_open)
  with Cons.prems have o: "list_all sumOpen ?out" by simp
  from Cons.prems have o2: "list_all sumOpen (out @ [t])" by simp
  from Cons.prems have r: "list_all sumOpen rest" by simp
  show ?case
  proof (cases "ToLower t \<in> set implicitOps")
    case True
    with Cons.IH [OF r o] show ?thesis by simp
  next
    case False
    with Cons.IH [OF r o2] show ?thesis by simp
  qed
qed

lemma rewriteFaces_open: "list_all sumOpen xs \<Longrightarrow> list_all sumOpen (rewriteFaces xs)"
proof (induction xs rule: rewriteFaces.induct)
  case (1 x0 x1 x2 x3 x4 rest)
  from 1(3) have x1: "sumOpen x1" by simp
  then have low: "ToLower x1 = x1" by (rule sumOpen_lower)
  have "x1 \<noteq> ''a'' \<and> x1 \<noteq> ''c''"
    using x1 not_sumTok(1,2) by (auto simp add: sumOpen_def)
  with low have no: "\<not> (ToLower x1 = ''a'' \<or> ToLower x1 = ''c'')" by simp
  with 1 show ?case by simp
qed simp_all

lemma is_sumOpen: "sumOpen ''1''" "sumOpen ''d''" "sumOpen ''100''"
  by (simp_all add: sumOpen_def is_sumTok)

lemma defaultFaces_open:
  "list_all sumOpen xs \<Longrightarrow> list_all sumOpen (defaultFaces first 100 xs)"
proof (induction first "100 :: int" xs rule: defaultFaces.induct)
  case (1 first)
  show ?case by simp
next
  case (2 first tok rest)
  from "2.prems" have t: "sumOpen tok" and r: "list_all sumOpen rest" by simp_all
  then have r': "list_all sumOpen (tl rest)" by (cases rest) simp_all
  from "2.hyps" r r' t show ?case
    by (simp add: is_sumOpen lit_facts)
qed

lemma preProcessTokens_open:
  "list_all sumOpen toks \<Longrightarrow> list_all sumOpen (preProcessTokens toks 100)"
  unfolding preProcessTokens_def
  by (intro defaultFaces_open rewriteFaces_open insertDefaults_open) simp_all

lemma popOps_open:
  "list_all sumOpen stack \<Longrightarrow> list_all sumTok out
   \<Longrightarrow> list_all sumOpen (fst (popOps op stack out)) \<and> list_all sumTok (snd (popOps op stack out))"
  by (induction op stack out rule: popOps.induct) (simp_all add: sumOpen_operator)

lemma flushStack_open:
  "flushStack stack out = Some rpn \<Longrightarrow> list_all sumOpen stack \<Longrightarrow> list_all sumTok out
   \<Longrightarrow> list_all sumTok rpn"
  by (induction stack out rule: flushStack.induct) (auto simp add: sumOpen_def split: if_splits)

lemma rpnLoop_open:
  "rpnLoop toks out stack = Some rpn \<Longrightarrow> list_all sumOpen toks \<Longrightarrow> list_all sumTok out
   \<Longrightarrow> list_all sumOpen stack \<Longrightarrow> list_all sumTok rpn"
proof (induction toks arbitrary: out stack)
  case Nil
  then show ?case using flushStack_open [of stack out rpn] by simp
next
  case (Cons tok rest)
  from Cons.prems(2) have t: "sumOpen tok" and r: "list_all sumOpen rest" by simp_all
  show ?case
  proof (cases "tok = ''(''")
    case True
    with Cons.prems(1) have "rpnLoop rest out (tok # stack) = Some rpn"
      by (simp add: open_facts)
    from Cons.IH [OF this r Cons.prems(3)] Cons.prems(4) t show ?thesis by simp
  next
    case False
    with t have t': "sumTok tok" by (simp add: sumOpen_def)
    show ?thesis
    proof (cases "Atoi tok")
      case (Some v)
      then have "isOperand tok" by (simp add: isOperand_def)
      with Cons.prems(1) have "rpnLoop rest (out @ [tok]) stack = Some rpn" by simp
      from Cons.IH [OF this r _ Cons.prems(4)] Cons.prems(3) t' show ?thesis by simp
    next
      case None
      with t' have m: "tok \<in> set sumOps" by (simp add: sumTok_def)
      with sumOps_facts have "ToLower tok = tok \<and> isOperator tok \<and> \<not> isOperand tok"
        unfolding list_all_iff by blast
      then have f: "ToLower tok = tok" "isOperator tok" "\<not> isOperand tok" by simp_all
      let ?op = "if ToLower tok = ''df'' then ''f'' else ToLower tok"
      from t' f(1) have op: "sumTok ?op" by (simp add: is_sumTok)
      then have op': "sumOpen ?op" by (simp add: sumOpen_def)
      from f have "isOperator (ToLower tok)" by simp
      with f(3) Cons.prems(1)
      have "rpnLoop rest (snd (popOps ?op stack out)) (?op # fst (popOps ?op stack out)) = Some rpn"
        by (simp add: Let_def)
      from Cons.IH [OF this r] popOps_open [OF Cons.prems(4) Cons.prems(3), of ?op] op' show ?thesis
        by simp
    qed
  qed
qed

lemma toRPN_open: "toRPN toks = Some rpn \<Longrightarrow> list_all sumOpen toks \<Longrightarrow> list_all sumTok rpn"
  unfolding toRPN_def using rpnLoop_open [of toks "[]" "[]" rpn] by simp

text \<open>
  Without \<open>?\<close> and \<open>:\<close> among the tokens, the search for a group to fold ends without a
  site only if there is no closing parenthesis.
\<close>

lemma findSite_closing:
  "findSite toks is = NoSite \<Longrightarrow> \<forall>i\<in>set is. i < length toks \<Longrightarrow> ''?'' \<notin> set toks
   \<Longrightarrow> '':'' \<notin> set toks \<Longrightarrow> \<forall>i\<in>set is. toks ! i \<noteq> '')''"
proof (induction "is")
  case Nil
  show ?case by simp
next
  case (Cons i rest)
  from Cons.prems(2) have ilen: "i < length toks" by simp
  show ?case
  proof (cases "toks ! i = '')''")
    case False
    with Cons show ?thesis by simp
  next
    case True
    show ?thesis
    proof (cases "matchBack (rev (take (Suc i) toks)) 0 0")
      case None
      with Cons.prems(1) True show ?thesis by simp
    next
      case (Some n)
      from ilen have "i - n - 1 < length toks" by simp
      then have "toks ! (i - n - 1) \<in> set toks" by simp
      with Cons.prems(3,4) have "toks ! (i - n - 1) \<noteq> ''?'' \<and> toks ! (i - n - 1) \<noteq> '':''"
        by metis
      with Cons.prems(1) True Some show ?thesis by simp
    qed
  qed
qed

lemma no_closing:
  assumes "findSite toks [0..<length toks] = NoSite" "''?'' \<notin> set toks" "'':'' \<notin> set toks"
  shows "'')'' \<notin> set toks"
proof
  assume "'')'' \<in> set toks"
  then obtain i where "i < length toks" "toks ! i = '')''" by (auto simp add: in_set_conv_nth)
  with findSite_closing [OF assms(1) _ assms(2,3)] show False by simp
qed

lemma matchFwd_open: "'')'' \<notin> set ts \<Longrightarrow> 0 < d \<Longrightarrow> matchFwd ts d n = None"
  by (induction ts arbitrary: d n) auto

lemma trimOuter_open: "'')'' \<notin> set toks \<Longrightarrow> trimOuter toks = toks"
proof (cases toks)
  case Nil
  then show ?thesis by (subst trimOuter.simps) simp
next
  case (Cons t ts)
  assume "'')'' \<notin> set toks"
  with Cons have "t \<noteq> '')''" "'')'' \<notin> set ts" by auto
  with matchFwd_open [of ts 1 1] Cons show ?thesis
    by (subst trimOuter.simps) auto
qed

lemma sumExpr_plain:
  assumes "list_all sumExpr toks"
  shows "''?'' \<notin> set toks \<and> '':'' \<notin> set toks"
proof -
  have "\<not> sumExpr ''?''" "\<not> sumExpr '':''" by (simp_all add: sumExpr_def not_sumTok)
  with assms show ?thesis unfolding list_all_iff by blast
qed

lemma sumExpr_open:
  assumes "list_all sumExpr toks" "'')'' \<notin> set toks"
  shows "list_all sumOpen toks"
  using assms unfolding list_all_iff sumExpr_def sumOpen_def by blast

lemma sumExpr_part:
  assumes "list_all sumExpr toks"
  shows "list_all sumExpr (take k toks)" "list_all sumExpr (drop k toks)"
  using assms unfolding list_all_iff by (blast dest: in_set_takeD in_set_dropD)+

text \<open>
  The invariant through \<open>evalTokens\<close>: the value of a folded group goes back among the
  tokens as a literal, and the rest is evaluated in postfix form.
\<close>

lemma evalTokens_sum:
  "list_all sumExpr toks \<Longrightarrow> DefaultFaces r = 100 \<Longrightarrow> evalTokens sub toks r = Done (v, r')
   \<Longrightarrow> sumValue v \<and> DefaultFaces r' = 100"
proof (induction sub toks r arbitrary: v r' rule: evalTokens.induct)
  case (1 sub tokens r)
  note cls = "1.prems"(1) and df = "1.prems"(2) and ev = "1.prems"(3)
  show ?case
  proof (cases "findSite tokens [0..<length tokens]")
    case BadSite
    with ev show ?thesis by (simp add: evalTokens.simps [of sub tokens])
  next
    case (Site openIdx closeIdx)
    let ?inner = "take (closeIdx - openIdx - 1) (drop (openIdx + 1) tokens)"
    from ev Site obtain v1 r1 where in1: "evalTokens sub ?inner r = Done (v1, r1)"
      and rest: "evalTokens sub (take openIdx tokens @ [Itoa (V v1)] @ drop (closeIdx + 1) tokens) r1
                 = Done (v, r')"
      by (auto simp add: evalTokens.simps [of sub tokens] split: outcome.splits)
    from cls have "list_all sumExpr ?inner" by (intro sumExpr_part)
    from "1.IH"(4) [OF Site this df in1] have v1: "sumValue v1" and df1: "DefaultFaces r1 = 100"
      by simp_all
    from v1 have "inRange (V v1)" by (simp add: sumValue_def)
    then have "sumExpr (Itoa (V v1))" by (simp add: sumExpr_def sumTok_def Atoi_Itoa)
    with sumExpr_part [OF cls]
    have "list_all sumExpr (take openIdx tokens @ [Itoa (V v1)] @ drop (closeIdx + 1) tokens)"
      by simp
    from "1.IH"(5) [OF Site in1 refl this df1 rest] show ?thesis .
  next
    case NoSite
    from sumExpr_plain [OF cls] have q: "''?'' \<notin> set tokens" and c: "'':'' \<notin> set tokens"
      by simp_all
    from no_closing [OF NoSite q c] have nc: "'')'' \<notin> set tokens" .
    then have tr: "trimOuter tokens = tokens" by (rule trimOuter_open)
    from q have nt: "findQuestion tokens 0 0 = NoTern" by (rule findQuestion_none)
    from ev NoSite tr nt df obtain rpn where rpn: "toRPN (preProcessTokens tokens 100) = Some rpn"
      and ev': "evalRPN sub rpn r = Done (v, r')"
      by (auto simp add: evalTokens.simps [of sub tokens] split: option.splits)
    from toRPN_open [OF rpn preProcessTokens_open [OF sumExpr_open [OF cls nc]]]
    have "list_all sumTok rpn" .
    from evalRPN_sum [OF this ev'] evalRPN_faces [OF ev'] df show ?thesis by simp
  qed
qed

text \<open>
  Claim C2, amended. Let the expression lex into integer literals, the operators \<open>d\<close>,
  \<open>f\<close>, \<open>k\<close>, \<open>q\<close>, \<open>kh\<close>, \<open>kl\<close>, \<open>dh\<close>, \<open>dl\<close>, \<open>min\<close>, \<open>max\<close>, \<open>sp\<close>, \<open>tp\<close> and \<open>lp\<close>,
  and parentheses. Whenever its evaluation succeeds, for any table, random source and
  nesting bound, the result has no string meta, and if it has an integer meta list (also
  an empty one) its value is the sum of that list in 64 bits: a number of the 64-bit
  range that differs from the sum by a multiple of \<open>2^64\<close>, so the sum itself whenever
  the sum is in that range.
\<close>

theorem C2_sum_invariant:
  assumes "tokenize (replaceVars (New vt g) (ToLower e)) = Some toks"
    and "list_all sumExpr toks"
    and "Roll n e vt g = Done (v, r')"
  shows "MetaStr v = []
     \<and> (MetaEnable v \<or> Meta v \<noteq> None \<longrightarrow>
          minInt \<le> V v \<and> V v \<le> maxInt \<and> (V v - sum_list (metaList v)) mod 2 ^ 64 = 0
          \<and> (minInt \<le> sum_list (metaList v) \<and> sum_list (metaList v) \<le> maxInt
               \<longrightarrow> V v = sum_list (metaList v)))"
proof -
  have d: "DefaultFaces (New vt g) = 100" by (simp add: New_def)
  from assms(1,3) have "evalTokens (RollN n) toks (New vt g) = Done (v, r')"
    by (simp add: Roll_def rollValue_def)
  from evalTokens_sum [OF assms(2) d this] have "sumValue v" by simp
  then have 1: "MetaStr v = []"
    and 2: "MetaEnable v \<or> Meta v \<noteq> None \<longrightarrow> V v = sum64 (metaList v)"
    by (auto simp: sumValue_def split: if_splits)
  from 2 sum64_spec [of "metaList v"]
  have "MetaEnable v \<or> Meta v \<noteq> None \<longrightarrow>
          minInt \<le> V v \<and> V v \<le> maxInt \<and> (V v - sum_list (metaList v)) mod 2 ^ 64 = 0
          \<and> (minInt \<le> sum_list (metaList v) \<and> sum_list (metaList v) \<le> maxInt
               \<longrightarrow> V v = sum_list (metaList v))"
    by auto
  with 1 show ?thesis by blast
qed

text \<open>The theorem at \<open>4d(1d6)kh3\<close> with the roll 6 in the group and then the rolls 6, 3, 1
  and 4.\<close>

theorem C2_sum_invariant_witness:
  "\<exists>v r'. Roll 0 ''4d(1d6)kh3'' None (fixedRand [5, 5, 2, 0, 3]) = Done (v, r')
      \<and> MetaEnable v \<and> metaList v = [6, 4, 3] \<and> MetaStr v = [] \<and> V v = 13"
proof -
  let ?x = "Roll 0 ''4d(1d6)kh3'' None (fixedRand [5, 5, 2, 0, 3])"
  have m: "outMeta ?x = Some [6, 4, 3]" by code_simp
  then obtain v r' where x: "?x = Done (v, r')" and en: "MetaEnable v" and ml: "metaList v = [6, 4, 3]"
    by (auto simp: outMeta_def split: outcome.splits if_splits)
  have t: "tokenize (replaceVars (New None (fixedRand [5, 5, 2, 0, 3])) (ToLower ''4d(1d6)kh3''))
      = Some [''4'', ''d'', ''('', ''1'', ''d'', ''6'', '')'', ''kh'', ''3'']" by code_simp
  have c: "list_all sumExpr [''4'', ''d'', ''('', ''1'', ''d'', ''6'', '')'', ''kh'', ''3'']"
    by code_simp
  from C2_sum_invariant [OF t c x] en ml x show ?thesis
    by (simp add: minInt_def maxInt_def)
qed

text \<open>
  The operand \<open>2^63 - 1\<close> repeated twice: the meta list sums to \<open>2^64 - 2\<close>, and the value
  is \<open>-2\<close>.
\<close>

theorem C2_counterexample:
  "outValue (Roll 0 ''9223372036854775807lp2'' None (fixedRand [])) = Some (- 2)
   \<and> outMeta (Roll 0 ''9223372036854775807lp2'' None (fixedRand []))
     = Some [9223372036854775807, 9223372036854775807]
   \<and> map_option sum_list (outMeta (Roll 0 ''9223372036854775807lp2'' None (fixedRand [])))
     = Some 18446744073709551614"
  by code_simp

section \<open>Dependence on the random stream\<close>

text \<open>
  Two random sources are the same stream when the numbers they will yield from now on
  are the same, whatever was drawn from them before. Two evaluators are in the same
  state when their tables, temp stores and default faces are equal and their random
  sources are the same stream; two outcomes are the same when they are the same error,
  or the same value in the same state.
\<close>

definition sameStream :: "rand \<Rightarrow> rand \<Rightarrow> bool" where
  "sameStream g g' = (\<forall>i. draws g (used g + i) = draws g' (used g' + i))"

definition sameState :: "RD \<Rightarrow> RD \<Rightarrow> bool" where
  "sameState r r' =
     (ValueTable r = ValueTable r' \<and> temp r = temp r' \<and> DefaultFaces r = DefaultFaces r'
      \<and> sameStream (rng r) (rng r'))"

definition sameOut :: "('a \<times> RD) outcome \<Rightarrow> ('a \<times> RD) outcome \<Rightarrow> bool" where
  "sameOut x y =
     (case x of
        Diverge \<Rightarrow> y = Diverge
      | Fail e \<Rightarrow> y = Fail e
      | Done (a, r) \<Rightarrow> (case y of Done (b, r') \<Rightarrow> a = b \<and> sameState r r' | _ \<Rightarrow> False))"

definition sameSub :: "subroll \<Rightarrow> bool" where
  "sameSub sub =
     (\<forall>v vt g g'. sameStream g g' \<longrightarrow>
        (case sub v vt g of
           Diverge \<Rightarrow> sub v vt g' = Diverge
         | Fail e \<Rightarrow> sub v vt g' = Fail e
         | Done (val, t, h) \<Rightarrow>
             (case sub v vt g' of
                Done (val', t', h') \<Rightarrow> val = val' \<and> t = t' \<and> sameStream h h'
              | _ \<Rightarrow> False)))"

lemma sameStream_Intn:
  assumes "sameStream g g'"
  shows "fst (Intn n g) = fst (Intn n g') \<and> sameStream (snd (Intn n g)) (snd (Intn n g'))"
proof -
  from assms have a: "draws g (used g + 0) = draws g' (used g' + 0)"
    unfolding sameStream_def by (rule spec)
  have b: "draws g (Suc (used g + i)) = draws g' (Suc (used g' + i))" for i
  proof -
    from assms have "draws g (used g + Suc i) = draws g' (used g' + Suc i)"
      unfolding sameStream_def by (rule spec)
    then show ?thesis by simp
  qed
  from a b show ?thesis by (simp add: sameStream_def Intn_def)
qed

lemma rollMany_same:
  "sameStream g g' \<Longrightarrow>
   fst (rollMany k n off g) = fst (rollMany k n off g')
   \<and> sameStream (snd (rollMany k n off g)) (snd (rollMany k n off g'))"
proof (induction k arbitrary: g g')
  case 0
  then show ?case by simp
next
  case (Suc k)
  from sameStream_Intn [OF Suc.prems, of n]
  have h: "fst (Intn n g) = fst (Intn n g')" "sameStream (snd (Intn n g)) (snd (Intn n g'))"
    by simp_all
  from Suc.IH [OF h(2)] h(1) show ?case by simp
qed

lemma roundA_same:
  "sameStream g g' \<Longrightarrow>
   snd (roundA k m threshold g meta nextCount tot) = snd (roundA k m threshold g' meta nextCount tot)
   \<and> sameStream (fst (roundA k m threshold g meta nextCount tot))
        (fst (roundA k m threshold g' meta nextCount tot))"
proof (induction k arbitrary: g g' meta nextCount tot)
  case 0
  then show ?case by simp
next
  case (Suc k)
  from sameStream_Intn [OF Suc.prems, of m]
  have h: "fst (Intn m g) = fst (Intn m g')" "sameStream (snd (Intn m g)) (snd (Intn m g'))"
    by simp_all
  from Suc.IH [OF h(2)] h(1) show ?case by simp
qed

lemma roundC_same:
  "sameStream g g' \<Longrightarrow>
   snd (roundC k m threshold g meta nextC maxv) = snd (roundC k m threshold g' meta nextC maxv)
   \<and> sameStream (fst (roundC k m threshold g meta nextC maxv))
        (fst (roundC k m threshold g' meta nextC maxv))"
proof (induction k arbitrary: g g' meta nextC maxv)
  case 0
  then show ?case by simp
next
  case (Suc k)
  from sameStream_Intn [OF Suc.prems, of m]
  have h: "fst (Intn m g) = fst (Intn m g')" "sameStream (snd (Intn m g)) (snd (Intn m g'))"
    by simp_all
  from Suc.IH [OF h(2)] h(1) show ?case by simp
qed

lemma chainA_same:
  "sameStream g g' \<Longrightarrow>
   snd (chainA m threshold nextCount g meta tot) = snd (chainA m threshold nextCount g' meta tot)
   \<and> sameStream (fst (chainA m threshold nextCount g meta tot))
        (fst (chainA m threshold nextCount g' meta tot))"
proof (induction m threshold nextCount g meta tot arbitrary: g' rule: chainA.induct)
  case (1 m threshold nextCount g meta tot)
  show ?case
  proof (cases "nextCount > 0")
    case False
    with "1.prems" show ?thesis by (simp add: chainA.simps)
  next
    case True
    let ?rd = "roundA (nat nextCount) m threshold g meta 0 tot"
    let ?rd' = "roundA (nat nextCount) m threshold g' meta 0 tot"
    from roundA_same [OF "1.prems", of "nat nextCount" m threshold meta 0 tot]
    have e: "snd ?rd = snd ?rd'" and s: "sameStream (fst ?rd) (fst ?rd')" by simp_all
    show ?thesis
    proof (cases "length (fst (snd ?rd)) > 10000")
      case True
      with \<open>nextCount > 0\<close> e s show ?thesis
        by (simp add: chainA.simps [of m threshold nextCount] Let_def)
    next
      case False
      from "1.IH" [OF \<open>nextCount > 0\<close> refl False s] e
      have "snd (chainA m threshold (fst (snd (snd ?rd))) (fst ?rd) (fst (snd ?rd)) (snd (snd (snd ?rd))))
          = snd (chainA m threshold (fst (snd (snd ?rd'))) (fst ?rd') (fst (snd ?rd')) (snd (snd (snd ?rd'))))
        \<and> sameStream (fst (chainA m threshold (fst (snd (snd ?rd))) (fst ?rd) (fst (snd ?rd)) (snd (snd (snd ?rd)))))
            (fst (chainA m threshold (fst (snd (snd ?rd'))) (fst ?rd') (fst (snd ?rd')) (snd (snd (snd ?rd')))))"
        by simp
      with \<open>nextCount > 0\<close> False e show ?thesis
        by (simp add: chainA.simps [of m threshold nextCount] Let_def)
    qed
  qed
qed

lemma chainC_same:
  "sameStream g g' \<Longrightarrow>
   snd (chainC m threshold nextC g meta tot) = snd (chainC m threshold nextC g' meta tot)
   \<and> sameStream (fst (chainC m threshold nextC g meta tot))
        (fst (chainC m threshold nextC g' meta tot))"
proof (induction m threshold nextC g meta tot arbitrary: g' rule: chainC.induct)
  case (1 m threshold nextC g meta tot)
  show ?case
  proof (cases "nextC > 0")
    case False
    with "1.prems" show ?thesis by (simp add: chainC.simps)
  next
    case True
    let ?rd = "roundC (nat nextC) m threshold g meta 0 0"
    let ?rd' = "roundC (nat nextC) m threshold g' meta 0 0"
    from roundC_same [OF "1.prems", of "nat nextC" m threshold meta 0 0]
    have e: "snd ?rd = snd ?rd'" and s: "sameStream (fst ?rd) (fst ?rd')" by simp_all
    show ?thesis
    proof (cases "length (fst (snd ?rd)) > 10000")
      case True
      with \<open>nextC > 0\<close> e s show ?thesis
        by (simp add: chainC.simps [of m threshold nextC] Let_def)
    next
      case False
      from "1.IH" [OF \<open>nextC > 0\<close> refl False s] e
      have "snd (chainC m threshold (fst (snd (snd ?rd))) (fst ?rd) (fst (snd ?rd)) (tot + snd (snd (snd ?rd))))
          = snd (chainC m threshold (fst (snd (snd ?rd'))) (fst ?rd') (fst (snd ?rd')) (tot + snd (snd (snd ?rd'))))
        \<and> sameStream (fst (chainC m threshold (fst (snd (snd ?rd))) (fst ?rd) (fst (snd ?rd)) (tot + snd (snd (snd ?rd)))))
            (fst (chainC m threshold (fst (snd (snd ?rd'))) (fst ?rd') (fst (snd ?rd')) (tot + snd (snd (snd ?rd')))))"
        by simp
      with \<open>nextC > 0\<close> False e show ?thesis
        by (simp add: chainC.simps [of m threshold nextC] Let_def)
    qed
  qed
qed

lemma sameOut_if:
  "(c \<Longrightarrow> sameOut a a') \<Longrightarrow> (\<not> c \<Longrightarrow> sameOut b b')
   \<Longrightarrow> sameOut (if c then a else b) (if c then a' else b')"
  by simp

lemma sameOut_Done: "sameState r r' \<Longrightarrow> sameOut (Done (x, r)) (Done (x, r'))"
  by (simp add: sameOut_def)

lemma sameOut_Fail: "sameOut (Fail e) (Fail e)"
  by (simp add: sameOut_def)

lemma sameState_rng:
  "sameState r r' \<Longrightarrow> sameStream g g' \<Longrightarrow> sameState (r\<lparr>rng := g\<rparr>) (r'\<lparr>rng := g'\<rparr>)"
  by (simp add: sameState_def)

lemma binary_same:
  "(\<And>a b rest. sameOut (f a b rest r) (f a b rest r'))
   \<Longrightarrow> sameOut (binary f st r) (binary f st r')"
  by (simp add: binary_def sameOut_Fail split: list.splits)

lemma ternary_same:
  "(\<And>a b c rest. sameOut (f a b c rest r) (f a b c rest r'))
   \<Longrightarrow> sameOut (ternary f st r) (ternary f st r')"
  by (simp add: ternary_def sameOut_Fail split: list.splits)

lemma opChoose_same: "sameState r r' \<Longrightarrow> sameOut (opChoose a b c st r) (opChoose a b c st r')"
  by (simp add: opChoose_def sameOut_Done)

lemma opArith_same: "sameState r r' \<Longrightarrow> sameOut (opArith f a b st r) (opArith f a b st r')"
  by (simp add: opArith_def sameOut_Done)

lemma opDiv_same: "sameState r r' \<Longrightarrow> sameOut (opDiv a b st r) (opDiv a b st r')"
  by (simp add: opDiv_def sameOut_Done sameOut_Fail)

lemma opPow_same: "sameState r r' \<Longrightarrow> sameOut (opPow a b st r) (opPow a b st r')"
  by (simp add: opPow_def sameOut_Done sameOut_Fail)

lemma opD_same: "sameState r r' \<Longrightarrow> sameOut (opD a b st r) (opD a b st r')"
proof -
  assume s: "sameState r r'"
  then have g: "sameStream (rng r) (rng r')" by (simp add: sameState_def)
  from rollMany_same [OF g, of "nat (lastOrV a)" "lastOrV b" 1] s show ?thesis
    by (simp add: opD_def Let_def sameOut_Done sameOut_Fail sameState_rng)
qed

lemma opF_same: "sameState r r' \<Longrightarrow> sameOut (opF a b st r) (opF a b st r')"
proof -
  assume s: "sameState r r'"
  then have g: "sameStream (rng r) (rng r')" by (simp add: sameState_def)
  from rollMany_same [OF g, of "nat (V a)" 3 "- 1"] s show ?thesis
    by (simp add: opF_def Let_def sameOut_Done sameOut_Fail sameState_rng)
qed

lemma chainOp_same:
  "sameState r r' \<Longrightarrow> sameOut (chainOp additive a b m checkFaces st r) (chainOp additive a b m checkFaces st r')"
proof -
  assume s: "sameState r r'"
  then have g: "sameStream (rng r) (rng r')" by (simp add: sameState_def)
  from chainA_same [OF g, of m "V b" "V a" "[]" 0] chainC_same [OF g, of m "V b" "V a" "[]" 0] s
  show ?thesis
    by (auto simp add: chainOp_def Let_def sameOut_Done sameOut_Fail sameState_rng)
qed

lemma percentileOp_same:
  "sameState r r' \<Longrightarrow> sameOut (percentileOp bonus a b st r) (percentileOp bonus a b st r')"
proof -
  assume s: "sameState r r'"
  then have g: "sameStream (rng r) (rng r')" by (simp add: sameState_def)
  from sameStream_Intn [OF g, of 10]
  have t: "fst (Intn 10 (rng r)) = fst (Intn 10 (rng r'))"
    and g1: "sameStream (snd (Intn 10 (rng r))) (snd (Intn 10 (rng r')))" by simp_all
  from sameStream_Intn [OF g1, of 10]
  have u: "fst (Intn 10 (snd (Intn 10 (rng r)))) = fst (Intn 10 (snd (Intn 10 (rng r'))))"
    and g2: "sameStream (snd (Intn 10 (snd (Intn 10 (rng r))))) (snd (Intn 10 (snd (Intn 10 (rng r')))))"
    by simp_all
  from rollMany_same [OF g2, of "nat (V b)" 10 0] t u s show ?thesis
    by (simp add: percentileOp_def Let_def sameOut_Done sameOut_Fail sameState_rng)
qed

lemma opAssign_same: "sameState r r' \<Longrightarrow> sameOut (opAssign a b st r) (opAssign a b st r')"
  by (simp add: opAssign_def sameOut_def sameState_def)

lemma opMinMax_same: "sameState r r' \<Longrightarrow> sameOut (opMinMax tok a b st r) (opMinMax tok a b st r')"
  by (simp add: opMinMax_def Let_def sameOut_Done sameOut_Fail)

lemma opSp_same: "sameState r r' \<Longrightarrow> sameOut (opSp a b st r) (opSp a b st r')"
  by (simp add: opSp_def Let_def sameOut_Done sameOut_Fail)

lemma opTp_same: "sameState r r' \<Longrightarrow> sameOut (opTp a b st r) (opTp a b st r')"
  by (simp add: opTp_def Let_def sameOut_Done sameOut_Fail)

lemma getFromMetaTuple_same:
  "sameSub sub \<Longrightarrow> sameState r r'
   \<Longrightarrow> sameOut (getFromMetaTuple sub els flagUpdate r res) (getFromMetaTuple sub els flagUpdate r' res)"
proof (induction sub els flagUpdate r res arbitrary: r' rule: getFromMetaTuple.induct)
  case (1 sub flagUpdate r res)
  then show ?case by (simp add: sameOut_Done)
next
  case (2 sub v els flagUpdate r res)
  then show ?case by simp
next
  case (3 sub v els flagUpdate r res)
  from "3.prems"(2) have vt: "ValueTable r' = ValueTable r" and g: "sameStream (rng r) (rng r')"
    by (simp_all add: sameState_def)
  from "3.prems"(1) g
  have c: "case sub v (ValueTable r) (rng r) of
           Diverge \<Rightarrow> sub v (ValueTable r) (rng r') = Diverge
         | Fail e \<Rightarrow> sub v (ValueTable r) (rng r') = Fail e
         | Done (val, t, h) \<Rightarrow>
             (case sub v (ValueTable r) (rng r') of
                Done (val', t', h') \<Rightarrow> val = val' \<and> t = t' \<and> sameStream h h'
              | _ \<Rightarrow> False)"
    unfolding sameSub_def by blast
  show ?case
  proof (cases "sub v (ValueTable r) (rng r)")
    case Diverge
    with c vt show ?thesis by (simp add: sameOut_def)
  next
    case (Fail e)
    with c vt show ?thesis by (simp add: sameOut_def)
  next
    case (Done x)
    obtain val t h where x: "x = (val, t, h)" by (cases x) auto
    from c Done x obtain h' where
      d': "sub v (ValueTable r) (rng r') = Done (val, t, h')" and hh: "sameStream h h'"
      by (auto split: outcome.splits)
    let ?upd = "\<lambda>q g. q\<lparr>rng := g,
               ValueTable :=
                 (if flagUpdate then (case t of None \<Rightarrow> ValueTable q | Some m \<Rightarrow> Some m)
                  else ValueTable q)\<rparr>"
    from "3.prems"(2) hh have st: "sameState (?upd r h) (?upd r' h')"
      by (auto simp add: sameState_def split: option.splits)
    from "3.IH" [OF Done x [symmetric] refl "3.prems"(1) st] Done x d' vt
    show ?thesis by simp
  qed
qed

lemma resolveMetaValues_same:
  "sameSub sub \<Longrightarrow> sameState r r'
   \<Longrightarrow> sameOut (resolveMetaValues sub v r) (resolveMetaValues sub v r')"
proof -
  assume a: "sameSub sub" "sameState r r'"
  from getFromMetaTuple_same [OF a, of "map MStr (MetaStr v)" True "[]"] a(2)
  show ?thesis
    by (auto simp add: resolveMetaValues_def sameOut_def split: outcome.splits option.splits)
qed

lemma opKeep_same:
  "sameSub sub \<Longrightarrow> sameState r r' \<Longrightarrow> sameOut (opKeep sub mode a b st r) (opKeep sub mode a b st r')"
proof -
  assume a: "sameSub sub" "sameState r r'"
  from resolveMetaValues_same [OF a, of a] show ?thesis
    by (auto simp add: opKeep_def sameOut_def split: outcome.splits)
qed

lemma opSelect_same:
  "sameSub sub \<Longrightarrow> sameState r r' \<Longrightarrow> sameOut (opSelect sub tok a b st r) (opSelect sub tok a b st r')"
proof -
  assume a: "sameSub sub" "sameState r r'"
  from resolveMetaValues_same [OF a, of a] show ?thesis
    by (auto simp add: opSelect_def sameOut_def split: outcome.splits)
qed

lemma opLp_same:
  "sameSub sub \<Longrightarrow> sameState r r' \<Longrightarrow> sameOut (opLp sub a b st r) (opLp sub a b st r')"
proof -
  assume a: "sameSub sub" "sameState r r'"
  from resolveMetaValues_same [OF a, of a] a(2) show ?thesis
    by (auto simp add: opLp_def Let_def sameOut_def split: outcome.splits)
qed

lemma evalOp_same:
  assumes "sameSub sub" and "sameState r r'"
  shows "sameOut (evalOp sub tok st r) (evalOp sub tok st r')"
  unfolding evalOp_def
  by (intro sameOut_if binary_same ternary_same opChoose_same opArith_same opDiv_same
      opPow_same opD_same opKeep_same chainOp_same percentileOp_same opAssign_same opLp_same
      opSelect_same opMinMax_same opF_same opSp_same opTp_same sameOut_Fail assms)

lemma tempRead_same: "sameState r r' \<Longrightarrow> tempRead tok r = tempRead tok r'"
proof -
  assume "sameState r r'"
  then have e: "temp r = temp r'" "ValueTable r = ValueTable r'"
    by (simp_all add: sameState_def)
  show ?thesis unfolding tempRead_def e by (rule refl)
qed

lemma evalStep_same:
  assumes "sameSub sub" and "sameState r r'"
  shows "sameOut (evalStep sub tok st r) (evalStep sub tok st r')"
proof (cases "Atoi tok")
  case None
  show ?thesis
    unfolding evalStep_def None option.case tempRead_same [OF assms(2), of tok]
    by (intro sameOut_if sameOut_Done evalOp_same assms)
next
  case (Some v)
  show ?thesis
    unfolding evalStep_def Some option.case by (intro sameOut_Done assms)
qed

lemma evalLoop_same:
  "sameSub sub \<Longrightarrow> sameState r r' \<Longrightarrow> sameOut (evalLoop sub toks st r) (evalLoop sub toks st r')"
proof (induction toks arbitrary: st r r')
  case Nil
  then show ?case by (simp add: sameOut_Done)
next
  case (Cons tok rest)
  from evalStep_same [OF Cons.prems, of tok st]
  have s: "sameOut (evalStep sub tok st r) (evalStep sub tok st r')" .
  show ?case
  proof (cases "evalStep sub tok st r")
    case Diverge
    with s show ?thesis by (simp add: sameOut_def)
  next
    case (Fail e)
    with s show ?thesis by (simp add: sameOut_def)
  next
    case (Done x)
    obtain st1 r1 where x: "x = (st1, r1)" by (cases x) auto
    from s Done x obtain r1' where d': "evalStep sub tok st r' = Done (st1, r1')"
      and st: "sameState r1 r1'"
      by (auto simp add: sameOut_def split: outcome.splits)
    from Cons.IH [OF Cons.prems(1) st, of st1] Done x d' show ?thesis by simp
  qed
qed

lemma evalRPN_same:
  assumes "sameSub sub" and "sameState r r'"
  shows "sameOut (evalRPN sub rpn r) (evalRPN sub rpn r')"
  using evalLoop_same [OF assms, of rpn "[]"]
  by (auto simp add: evalRPN_def sameOut_def split: outcome.splits)

lemma sameOut_cases:
  assumes "sameOut x y"
  obtains "x = Diverge" "y = Diverge"
  | e where "x = Fail e" "y = Fail e"
  | a r r' where "x = Done (a, r)" "y = Done (a, r')" "sameState r r'"
proof (cases x)
  case Diverge
  with assms have "y = Diverge" by (simp add: sameOut_def)
  with Diverge that(1) show thesis by simp
next
  case (Fail e)
  with assms have "y = Fail e" by (simp add: sameOut_def)
  with Fail that(2) show thesis by simp
next
  case (Done p)
  obtain a r where p: "p = (a, r)" by (cases p) auto
  from assms Done p obtain r' where "y = Done (a, r')" "sameState r r'"
    by (cases y) (auto simp add: sameOut_def)
  with Done p that(3) show thesis by simp
qed

lemma evalTokens_same:
  "sameSub sub \<Longrightarrow> sameState r r' \<Longrightarrow> sameOut (evalTokens sub tokens r) (evalTokens sub tokens r')"
proof (induction sub tokens r arbitrary: r' rule: evalTokens.induct)
  case (1 sub tokens r)
  note sub = "1.prems"(1) and st = "1.prems"(2)
  from st have df: "DefaultFaces r' = DefaultFaces r" by (simp add: sameState_def)
  show ?case
  proof (cases "findSite tokens [0..<length tokens]")
    case BadSite
    then show ?thesis by (simp add: evalTokens.simps [of sub tokens] sameOut_Fail)
  next
    case (Site openIdx closeIdx)
    let ?inner = "take (closeIdx - openIdx - 1) (drop (openIdx + 1) tokens)"
    from "1.IH"(4) [OF Site sub st]
    have "sameOut (evalTokens sub ?inner r) (evalTokens sub ?inner r')" .
    then show ?thesis
    proof (cases rule: sameOut_cases)
      case 1
      with Site show ?thesis by (simp add: evalTokens.simps [of sub tokens] sameOut_def)
    next
      case (2 e)
      with Site show ?thesis by (simp add: evalTokens.simps [of sub tokens] sameOut_def)
    next
      case (3 v r1 r1')
      from "1.IH"(5) [OF Site 3(1) refl sub 3(3)] Site 3(1,2)
      show ?thesis by (simp add: evalTokens.simps [of sub tokens])
    qed
  next
    case NoSite
    show ?thesis
    proof (cases "findQuestion (trimOuter tokens) 0 0")
      case BadTern
      with NoSite show ?thesis by (simp add: evalTokens.simps [of sub tokens] sameOut_Fail)
    next
      case (Tern i j)
      from "1.IH"(1) [OF NoSite Tern sub st]
      have "sameOut (evalTokens sub (take i (trimOuter tokens)) r)
              (evalTokens sub (take i (trimOuter tokens)) r')" .
      then show ?thesis
      proof (cases rule: sameOut_cases)
        case 1
        with NoSite Tern show ?thesis by (simp add: evalTokens.simps [of sub tokens] sameOut_def)
      next
        case (2 e)
        with NoSite Tern show ?thesis by (simp add: evalTokens.simps [of sub tokens] sameOut_def)
      next
        case (3 condVal r1 r1')
        show ?thesis
        proof (cases "V condVal \<noteq> 0")
          case True
          from "1.IH"(2) [OF NoSite Tern 3(1) refl True sub 3(3)] NoSite Tern 3(1,2) True
          show ?thesis by (simp add: evalTokens.simps [of sub tokens])
        next
          case False
          from "1.IH"(3) [OF NoSite Tern 3(1) refl False sub 3(3)] NoSite Tern 3(1,2) False
          show ?thesis by (simp add: evalTokens.simps [of sub tokens])
        qed
      qed
    next
      case NoTern
      show ?thesis
      proof (cases "toRPN (preProcessTokens (trimOuter tokens) (DefaultFaces r))")
        case None
        with NoSite NoTern df show ?thesis
          by (simp add: evalTokens.simps [of sub tokens] sameOut_Fail)
      next
        case (Some rpn)
        with NoSite NoTern df evalRPN_same [OF sub st, of rpn] show ?thesis
          by (simp add: evalTokens.simps [of sub tokens])
      qed
    qed
  qed
qed

lemma rollValue_same:
  assumes "sameSub sub" and "sameState r r'"
  shows "sameOut (rollValue sub expr r) (rollValue sub expr r')"
proof -
  from assms(2) have "replaceVars r' (ToLower expr) = replaceVars r (ToLower expr)"
    by (simp add: replaceVars_def sameState_def)
  with evalTokens_same [OF assms] show ?thesis
    by (simp add: rollValue_def sameOut_Fail split: option.splits)
qed

lemma sameState_New: "sameStream g g' \<Longrightarrow> sameState (New vt g) (New vt g')"
  by (simp add: sameState_def New_def)

lemma RollN_same: "sameSub (RollN n)"
proof (induction n)
  case 0
  show ?case by (simp add: sameSub_def)
next
  case (Suc n)
  show ?case
    unfolding sameSub_def
  proof (intro allI impI)
    fix v vt g g'
    assume "sameStream g g'"
    from rollValue_same [OF Suc sameState_New [OF this], of v vt]
    show "case RollN (Suc n) v vt g of
           Diverge \<Rightarrow> RollN (Suc n) v vt g' = Diverge
         | Fail e \<Rightarrow> RollN (Suc n) v vt g' = Fail e
         | Done (val, t, h) \<Rightarrow>
             (case RollN (Suc n) v vt g' of
                Done (val', t', h') \<Rightarrow> val = val' \<and> t = t' \<and> sameStream h h'
              | _ \<Rightarrow> False)"
      by (cases rule: sameOut_cases) (simp_all add: sameState_def)
  qed
qed

lemma Roll_same: "sameStream g g' \<Longrightarrow> sameOut (Roll n expr vt g) (Roll n expr vt g')"
  unfolding Roll_def by (rule rollValue_same [OF RollN_same sameState_New])

text \<open>
  The order in which a map is ranged over does not reach the result. \<open>buildDetail\<close> sorts
  the keys it has collected, and two lists of the same keys are the same list once
  sorted.
\<close>

lemma sort_same_keys: "mset ks' = mset ks \<Longrightarrow> sort ks' = sort ks"
  by (rule properties_for_sort) simp_all

lemma resultOf_same:
  assumes "sameOut x y"
    and "\<forall>m. mset (tempOrder' m) = mset (tempOrder m)"
    and "\<forall>m. mset (tableOrder' m) = mset (tableOrder m)"
  shows "resultOf tempOrder tableOrder x = resultOf tempOrder' tableOrder' y"
  using assms(1)
proof (cases rule: sameOut_cases)
  case 1
  then show ?thesis by (simp add: resultOf_def)
next
  case (2 e)
  then show ?thesis by (simp add: resultOf_def)
next
  case (3 a r r')
  from 3(3) have e: "temp r = temp r'" "ValueTable r = ValueTable r'"
    by (simp_all add: sameState_def)
  from assms(2) have t: "sort (tempOrder' (temp r')) = sort (tempOrder (temp r'))"
    by (intro sort_same_keys) simp
  have v: "sort (case ValueTable r' of None \<Rightarrow> [] | Some vt \<Rightarrow> tableOrder' vt)
         = sort (case ValueTable r' of None \<Rightarrow> [] | Some vt \<Rightarrow> tableOrder vt)"
  proof (cases "ValueTable r'")
    case None
    then show ?thesis by simp
  next
    case (Some vt)
    from assms(3) have "sort (tableOrder' vt) = sort (tableOrder vt)"
      by (intro sort_same_keys) simp
    with Some show ?thesis by simp
  qed
  have "buildDetail tempOrder tableOrder a (V a) (V a) r
      = buildDetail tempOrder' tableOrder' a (V a) (V a) r'"
    unfolding buildDetail_def detailOf_def e t v by (rule refl)
  with 3(1,2) show ?thesis by (simp add: resultOf_def)
qed

text \<open>
  The other loop over a map is in \<open>getFromMetaTuple\<close>: the entries of the nested
  evaluator's table are written into the receiver's table, one key after the other.
  \<open>mergeLoop\<close> is that loop for the keys in the order \<open>ks\<close>. The receiver's map is the
  nested evaluator's own map, or a new empty one when the receiver had none. In every
  order of the keys the loop leaves the contents of the nested table, which is what the
  model of \<open>getFromMetaTuple\<close> puts.
\<close>

definition mergeLoop ::
  "string list \<Rightarrow> (string \<rightharpoonup> int) \<Rightarrow> (string \<rightharpoonup> int) \<Rightarrow> (string \<rightharpoonup> int)" where
  "mergeLoop ks src dst = foldl (\<lambda>t k. t(k \<mapsto> the (src k))) dst ks"

lemma mergeLoop_restrict:
  "set ks \<subseteq> dom src \<Longrightarrow> mergeLoop ks src dst = dst ++ (src |` set ks)"
proof (induction ks arbitrary: dst)
  case Nil
  show ?case by (simp add: mergeLoop_def)
next
  case (Cons k ks)
  from Cons.prems obtain y where y: "src k = Some y" by auto
  from Cons.prems have sub: "set ks \<subseteq> dom src" by simp
  have "mergeLoop (k # ks) src dst = mergeLoop ks src (dst(k \<mapsto> y))"
    by (simp add: mergeLoop_def y)
  also have "\<dots> = dst(k \<mapsto> y) ++ (src |` set ks)" by (rule Cons.IH [OF sub])
  also have "\<dots> = dst ++ (src |` set (k # ks))"
    by (rule ext) (simp add: map_add_def restrict_map_def y split: option.splits)
  finally show ?case .
qed

lemma mergeLoop_order:
  assumes "set ks = dom src"
  shows "mergeLoop ks src src = src" and "mergeLoop ks src Map.empty = src"
proof -
  have "src |` dom src = src"
    by (rule ext) (auto simp add: restrict_map_def domIff)
  with assms have r: "src |` set ks = src" by simp
  from assms have "set ks \<subseteq> dom src" by simp
  have i: "src ++ src = src"
    by (rule ext) (simp add: map_add_def split: option.splits)
  from mergeLoop_restrict [OF \<open>set ks \<subseteq> dom src\<close>] r i
  show "mergeLoop ks src src = src" and "mergeLoop ks src Map.empty = src"
    by simp_all
qed

lemma getFromMetaTuple_merge:
  assumes "sub v (ValueTable r) (rng r) = Done (val, Some m, g)" and "set ks = dom m"
  shows "getFromMetaTuple sub (MStr v # els) True r res
     = getFromMetaTuple sub els True
         (r\<lparr>rng := g,
            ValueTable :=
              Some (mergeLoop ks m (case ValueTable r of None \<Rightarrow> Map.empty | Some t \<Rightarrow> m))\<rparr>)
         (res @ [val])"
  using assms(1) mergeLoop_order [OF assms(2)]
  by (simp split: option.splits)

text \<open>
  A second call of \<open>Roll\<close> on an evaluator that has been used, after the caller has put
  the table and the random source back: the temp store is the one that the first call
  has left.
\<close>

definition rollAgain ::
  "nat \<Rightarrow> string \<Rightarrow> (string \<rightharpoonup> int) option \<Rightarrow> rand \<Rightarrow> (Value \<times> RD) outcome" where
  "rollAgain n expr valueTable g =
     (case Roll n expr valueTable g of
        Done (v, r) \<Rightarrow> rollValue (RollN n) expr (r\<lparr>ValueTable := valueTable, rng := g\<rparr>)
      | Fail e \<Rightarrow> Fail e
      | Diverge \<Rightarrow> Diverge)"

text \<open>
  Claim C8, amended. Take two evaluations of the same expression with the same variable
  table, each by an evaluator newly made by \<open>New\<close>, started from random sources that
  yield the same numbers from then on. Whatever the order in which the run-time system
  ranges over the temp store and the table in either of them, they leave the same
  \<open>Result\<close> (the same \<open>Value\<close>, \<open>Min\<close>, \<open>Max\<close>, \<open>Detail\<close>, \<open>MetaTuple\<close> and \<open>Error\<close>), and
  also the same table, temp store and remaining random stream in the evaluator.
\<close>

theorem C8_deterministic:
  assumes "sameStream g g'"
    and "\<forall>m. mset (tempOrder' m) = mset (tempOrder m)"
    and "\<forall>m. mset (tableOrder' m) = mset (tableOrder m)"
  shows "resultOf tempOrder tableOrder (Roll n expr vt g)
           = resultOf tempOrder' tableOrder' (Roll n expr vt g')
         \<and> sameOut (Roll n expr vt g) (Roll n expr vt g')"
proof -
  from assms(1) have "sameOut (Roll n expr vt g) (Roll n expr vt g')"
    by (rule Roll_same)
  with resultOf_same [OF this assms(2,3)] show ?thesis by simp
qed

text \<open>
  The theorem at \<open>($t1=(1d6))+($t2=7)\<close> with the roll 5, for a random source that has been
  read once before, and with the keys met in opposite orders.
\<close>

theorem C8_deterministic_witness:
  "sameStream (fixedRand [4]) \<lparr>draws = (\<lambda>i. if i < 2 then [9, 4] ! i else 0), used = 1\<rparr>
   \<and> resultOf (\<lambda>m. [1, 2]) (\<lambda>m. [''T1'', ''T2''])
         (Roll 0 ''($t1=(1d6))+($t2=7)'' None (fixedRand [4]))
       = resultOf (\<lambda>m. [2, 1]) (\<lambda>m. [''T2'', ''T1''])
           (Roll 0 ''($t1=(1d6))+($t2=7)'' None
              \<lparr>draws = (\<lambda>i. if i < 2 then [9, 4] ! i else 0), used = 1\<rparr>)
   \<and> sameOut (Roll 0 ''($t1=(1d6))+($t2=7)'' None (fixedRand [4]))
       (Roll 0 ''($t1=(1d6))+($t2=7)'' None
          \<lparr>draws = (\<lambda>i. if i < 2 then [9, 4] ! i else 0), used = 1\<rparr>)
   \<and> map_option Detail
         (resultOf (\<lambda>m. [2, 1]) (\<lambda>m. [''T2'', ''T1''])
            (Roll 0 ''($t1=(1d6))+($t2=7)'' None
               \<lparr>draws = (\<lambda>i. if i < 2 then [9, 4] ! i else 0), used = 1\<rparr>))
       = Some ''12 temp:{t1=5,t2=7} vt:{T1=5,T2=7}''"
proof -
  have s: "sameStream (fixedRand [4])
     \<lparr>draws = (\<lambda>i. if i < 2 then [9, 4] ! i else 0), used = 1\<rparr>"
    by (simp add: sameStream_def fixedRand_def)
  have d: "map_option Detail
         (resultOf (\<lambda>m. [2, 1]) (\<lambda>m. [''T2'', ''T1''])
            (Roll 0 ''($t1=(1d6))+($t2=7)'' None
               \<lparr>draws = (\<lambda>i. if i < 2 then [9, 4] ! i else 0), used = 1\<rparr>))
       = Some ''12 temp:{t1=5,t2=7} vt:{T1=5,T2=7}''"
    by code_simp
  from C8_deterministic [OF s, of "\<lambda>m. [2, 1]" "\<lambda>m. [1, 2]" "\<lambda>m. [''T2'', ''T1'']"
      "\<lambda>m. [''T1'', ''T2'']" 0 "''($t1=(1d6))+($t2=7)''" None] s d
  show ?thesis by simp
qed

text \<open>
  The expression \<open>$t=($t+1)\<close> evaluates to 1 on a new evaluator and to 2 when the same
  evaluator evaluates it again, with the same table contents and from the same random
  stream.
\<close>

theorem C8_counterexample:
  "outValue (Roll 0 ''$t=($t+1)'' None (fixedRand [])) = Some 1
   \<and> outValue (rollAgain 0 ''$t=($t+1)'' None (fixedRand [])) = Some 2"
  by code_simp

end
